theory Spec2Isabelle
  imports Complex_Main "HOL-Library.AList"
begin

section \<open>Values, errors and number formatting\<close>

text \<open>
  A JavaScript number is modelled as a finite rational or one of the three special
  values. The integers this program computes with (coordinates, grid bounds, colour
  channels) are far inside the range where doubles represent integers exactly, so
  after a successful \<open>Number.isInteger\<close> check they are held as \<open>int\<close>.
\<close>

datatype number = Finite rat | NaN | Infinity | NegInfinity

datatype error = AssertionError | TypeError

fun Number_isInteger :: "number \<Rightarrow> bool" where
  "Number_isInteger (Finite q) = (of_int \<lfloor>q\<rfloor> = q)"
| "Number_isInteger NaN = False"
| "Number_isInteger Infinity = False"
| "Number_isInteger NegInfinity = False"

fun number_less_zero :: "number \<Rightarrow> bool" where
  "number_less_zero (Finite q) = (q < 0)"
| "number_less_zero NaN = False"
| "number_less_zero Infinity = False"
| "number_less_zero NegInfinity = True"

fun integer_value :: "number \<Rightarrow> int" where
  "integer_value (Finite q) = \<lfloor>q\<rfloor>"
| "integer_value NaN = 0"
| "integer_value Infinity = 0"
| "integer_value NegInfinity = 0"

abbreviation Integer :: "int \<Rightarrow> number" where
  "Integer n \<equiv> Finite (of_int n)"

definition digit_char :: "nat \<Rightarrow> char" where
  "digit_char d = char_of (48 + d)"

fun digits :: "nat \<Rightarrow> string" where
  "digits n = (if n < 10 then [digit_char n] else digits (n div 10) @ [digit_char (n mod 10)])"

declare digits.simps [simp del]

text \<open>\<open>Number.prototype.toString\<close> on an integer: base 10, no padding, a leading minus sign.\<close>

definition Number_toString :: "int \<Rightarrow> string" where
  "Number_toString n = (if n < 0 then ''-'' @ digits (nat (- n)) else digits (nat n))"

text \<open>\<open>Array.prototype.join\<close> on an array of strings.\<close>

fun join :: "string \<Rightarrow> string list \<Rightarrow> string" where
  "join sep [] = []"
| "join sep [s] = s"
| "join sep (s # t # ss) = s @ sep @ join sep (t # ss)"

text \<open>Mapping a function that may throw over an array: the first failure ends the whole map.\<close>

fun collect :: "(error + 'a) list \<Rightarrow> error + 'a list" where
  "collect [] = Inr []"
| "collect (Inl e # rs) = Inl e"
| "collect (Inr v # rs) = (case collect rs of Inl e \<Rightarrow> Inl e | Inr vs \<Rightarrow> Inr (v # vs))"

section \<open>Coordinates\<close>

record Coordinates =
  getX :: int
  getY :: int

text \<open>The constructor asserts \<open>Number.isInteger\<close> of both arguments and nothing else.\<close>

definition new_Coordinates :: "number \<Rightarrow> number \<Rightarrow> error + Coordinates" where
  "new_Coordinates x y =
     (if \<not> Number_isInteger x then Inl AssertionError
      else if \<not> Number_isInteger y then Inl AssertionError
      else Inr \<lparr>getX = integer_value x, getY = integer_value y\<rparr>)"

text \<open>
  \<open>addOffsets\<close> builds \<open>new Coordinates(x + dx, y + dy)\<close> for each offset. The offsets
  are arrays of integer literals, so both sums are integers and the constructor's
  assertions hold; the result is the list of shifted coordinates, in input order.
\<close>

definition addOffsets :: "Coordinates \<Rightarrow> (int \<times> int) list \<Rightarrow> Coordinates list" where
  "addOffsets c offsets = map (\<lambda>(dx, dy). \<lparr>getX = getX c + dx, getY = getY c + dy\<rparr>) offsets"

definition Coordinates_toString :: "Coordinates \<Rightarrow> string" where
  "Coordinates_toString c = Number_toString (getX c) @ '','' @ Number_toString (getY c)"

section \<open>Cell\<close>

text \<open>
  A cell's colour is \<open>null\<close> or the array handed to \<open>setColor\<close>, which has passed the
  three integer-and-range assertions; it is stored as the list of its integer values.
\<close>

record Cell =
  getCoordinates :: Coordinates
  isAlive :: bool
  getColor :: "int list option"

definition new_Cell :: "Coordinates \<Rightarrow> Cell" where
  "new_Cell c = \<lparr>getCoordinates = c, isAlive = False, getColor = None\<rparr>"

definition channel_ok :: "number \<Rightarrow> bool" where
  "channel_ok v \<longleftrightarrow> Number_isInteger v \<and> \<not> number_less_zero v \<and> integer_value v \<le> 255"

definition setColor :: "number list \<Rightarrow> Cell \<Rightarrow> error + Cell" where
  "setColor newColor cell =
     (if length newColor \<noteq> 3 then Inl AssertionError
      else if \<not> channel_ok (newColor ! 0) then Inl AssertionError
      else if \<not> channel_ok (newColor ! 1) then Inl AssertionError
      else if \<not> channel_ok (newColor ! 2) then Inl AssertionError
      else Inr (cell\<lparr>getColor := Some (map integer_value newColor)\<rparr>))"

definition setAlive :: "Cell \<Rightarrow> error + Cell" where
  "setAlive cell =
     (case getColor cell of
        None \<Rightarrow> Inl AssertionError
      | Some col \<Rightarrow> Inr (cell\<lparr>isAlive := True\<rparr>))"

definition setDead :: "Cell \<Rightarrow> Cell" where
  "setDead cell = cell\<lparr>isAlive := False, getColor := None\<rparr>"

text \<open>
  Sequences of cell operations. An operation whose assertion fails throws before it
  assigns anything, so the cell is as it was.
\<close>

datatype cell_op = SetColor "number list" | SetAlive | SetDead

fun apply_cell_op :: "cell_op \<Rightarrow> Cell \<Rightarrow> error + Cell" where
  "apply_cell_op (SetColor newColor) cell = setColor newColor cell"
| "apply_cell_op SetAlive cell = setAlive cell"
| "apply_cell_op SetDead cell = Inr (setDead cell)"

fun run_cell_ops :: "cell_op list \<Rightarrow> Cell \<Rightarrow> Cell" where
  "run_cell_ops [] cell = cell"
| "run_cell_ops (op # ops) cell =
     (case apply_cell_op op cell of
        Inl e \<Rightarrow> run_cell_ops ops cell
      | Inr cell' \<Rightarrow> run_cell_ops ops cell')"

definition color_ok :: "int list \<Rightarrow> bool" where
  "color_ok col \<longleftrightarrow> length col = 3 \<and> (\<forall>v \<in> set col. 0 \<le> v \<and> v \<le> 255)"

text \<open>Every stored colour is a valid RGB triplet, and a cell without colour is dead.\<close>

definition cell_inv :: "Cell \<Rightarrow> bool" where
  "cell_inv cell \<longleftrightarrow>
     (case getColor cell of None \<Rightarrow> \<not> isAlive cell | Some col \<Rightarrow> color_ok col)"

section \<open>Grid\<close>

text \<open>
  The grid's \<open>Map\<close> keeps its entries in insertion order and \<open>Map.set\<close> on a key
  that is present replaces the value in place: an association list with
  \<open>AList.update\<close>. Cell objects are mutable and shared by reference; every cell the
  grid hands out lives in the Map, so the Map is also the store of cell states and a
  reference to a cell is the key it is filed under. Reading through a reference looks
  the key up, writing through it replaces the entry.
\<close>

type_synonym cell_ref = string

record Grid =
  getMaxX :: int
  getMaxY :: int
  grid :: "(string \<times> Cell) list"

definition new_Grid :: "number \<Rightarrow> number \<Rightarrow> error + Grid" where
  "new_Grid maxX maxY =
     (if \<not> Number_isInteger maxX then Inl AssertionError
      else if \<not> Number_isInteger maxY then Inl AssertionError
      else Inr \<lparr>getMaxX = integer_value maxX, getMaxY = integer_value maxY, grid = []\<rparr>)"

definition deref :: "Grid \<Rightarrow> cell_ref \<Rightarrow> Cell option" where
  "deref g r = map_of (grid g) r"

definition write_cell :: "cell_ref \<Rightarrow> Cell \<Rightarrow> Grid \<Rightarrow> Grid" where
  "write_cell r cell g = g\<lparr>grid := AList.update r cell (grid g)\<rparr>"

definition setCell :: "Cell \<Rightarrow> Grid \<Rightarrow> error + cell_ref \<times> Grid" where
  "setCell cell g =
     (if \<not> getX (getCoordinates cell) \<ge> 0 then Inl AssertionError
      else if \<not> getX (getCoordinates cell) \<le> getMaxX g then Inl AssertionError
      else if \<not> getY (getCoordinates cell) \<ge> 0 then Inl AssertionError
      else if \<not> getY (getCoordinates cell) \<le> getMaxY g then Inl AssertionError
      else Inr (Coordinates_toString (getCoordinates cell),
                g\<lparr>grid := AList.update (Coordinates_toString (getCoordinates cell)) cell (grid g)\<rparr>))"

definition getCell :: "Coordinates \<Rightarrow> Grid \<Rightarrow> error + cell_ref \<times> Grid" where
  "getCell coordinates g =
     (if \<not> (getX coordinates \<ge> 0 \<and> getX coordinates \<le> getMaxX g) then Inl AssertionError
      else if \<not> (getY coordinates \<ge> 0 \<and> getY coordinates \<le> getMaxY g) then Inl AssertionError
      else case map_of (grid g) (Coordinates_toString coordinates) of
             Some cell \<Rightarrow> Inr (Coordinates_toString coordinates, g)
           | None \<Rightarrow> setCell (new_Cell coordinates) g)"

text \<open>\<open>coordinates.map(this.getCell, this)\<close>: the calls run left to right on the same grid.\<close>

fun getCells :: "Coordinates list \<Rightarrow> Grid \<Rightarrow> error + cell_ref list \<times> Grid" where
  "getCells [] g = Inr ([], g)"
| "getCells (c # cs) g =
     (case getCell c g of
        Inl e \<Rightarrow> Inl e
      | Inr (r, g') \<Rightarrow>
          (case getCells cs g' of
             Inl e \<Rightarrow> Inl e
           | Inr (rs, g'') \<Rightarrow> Inr (r # rs, g'')))"

definition in_bounds :: "Grid \<Rightarrow> Coordinates \<Rightarrow> bool" where
  "in_bounds g c \<longleftrightarrow> getX c \<ge> 0 \<and> getX c \<le> getMaxX g \<and> getY c \<ge> 0 \<and> getY c \<le> getMaxY g"

text \<open>The state of the cell at a position: the stored cell, or the dead cell that the
  first \<open>getCell\<close> there would create.\<close>

definition cellAt :: "Grid \<Rightarrow> Coordinates \<Rightarrow> Cell" where
  "cellAt g c = (case deref g (Coordinates_toString c) of Some cell \<Rightarrow> cell | None \<Rightarrow> new_Cell c)"

text \<open>What a successful \<open>getCell\<close> leaves behind: the grid itself when the position has
  a cell, the grid with a new dead cell appended otherwise.\<close>

definition materialize :: "Coordinates \<Rightarrow> Grid \<Rightarrow> Grid" where
  "materialize c g =
     (case deref g (Coordinates_toString c) of
        Some cell \<Rightarrow> g
      | None \<Rightarrow> write_cell (Coordinates_toString c) (new_Cell c) g)"

text \<open>
  The invariant of a grid: the Map's keys are distinct, every cell is filed under the
  key of its own coordinates (\<open>setCell\<close> computes the key from the cell), lies within
  the bounds (\<open>setCell\<close> asserts it) and satisfies the cell invariant.
\<close>

definition grid_inv :: "Grid \<Rightarrow> bool" where
  "grid_inv g \<longleftrightarrow>
     distinct (map fst (grid g)) \<and>
     (\<forall>(k, cell) \<in> set (grid g).
        k = Coordinates_toString (getCoordinates cell) \<and> in_bounds g (getCoordinates cell) \<and> cell_inv cell)"

subsection \<open>Neighbours\<close>

definition offsets :: "(int \<times> int) list" where
  "offsets = [(- 1, - 1), (0, - 1), (1, - 1), (- 1, 0), (1, 0), (- 1, 1), (0, 1), (1, 1)]"

definition neighbors :: "Cell \<Rightarrow> Grid \<Rightarrow> error + cell_ref list \<times> Grid" where
  "neighbors cell g =
     getCells
       (filter (\<lambda>coordinates.
                  let x = getX coordinates; y = getY coordinates
                  in x \<ge> 0 \<and> x \<le> getMaxX g \<and> y \<ge> 0 \<and> y \<le> getMaxY g)
               (addOffsets (getCoordinates cell) offsets))
       g"

subsection \<open>The generation transition\<close>

text \<open>
  Calling a method through a reference reads the cell filed under it. The program only
  holds references to cells of the Map; a key without an entry stands for no object.
\<close>

definition read_cell :: "Grid \<Rightarrow> cell_ref \<Rightarrow> error + Cell" where
  "read_cell g r = (case deref g r of None \<Rightarrow> Inl TypeError | Some cell \<Rightarrow> Inr cell)"

text \<open>
  The colour of a revived cell is computed by the \<open>color-space\<close> package and floating
  point arithmetic: \<open>space.rgb.lab\<close> of the three neighbours' colours, the mean of each
  Lab component, \<open>space.lab.rgb\<close>, and \<open>Math.round\<close> of each channel. That composition
  is a parameter of the transition: it maps three stored colours to the array handed to
  \<open>setColor\<close>.
\<close>

type_synonym blend = "int list \<Rightarrow> int list \<Rightarrow> int list \<Rightarrow> number list"

definition average_color :: "blend \<Rightarrow> Cell list \<Rightarrow> error + number list" where
  "average_color blend liveNeighbors =
     (case liveNeighbors of
        [n0, n1, n2] \<Rightarrow>
          (case (getColor n0, getColor n1, getColor n2) of
             (Some c0, Some c1, Some c2) \<Rightarrow> Inr (blend c0 c1 c2)
           | _ \<Rightarrow> Inl TypeError)
      | _ \<Rightarrow> Inl TypeError)"

record tick_state =
  the_grid :: Grid
  cellsChecked :: "cell_ref set"
  cellsToSwitch :: "cell_ref list"
  cellsToCheck :: "cell_ref list"

text \<open>One iteration of the \<open>while\<close> loop; \<open>pop\<close> takes the last element of the array.\<close>

definition tick_step :: "blend \<Rightarrow> tick_state \<Rightarrow> error + tick_state" where
  "tick_step blend s =
     (let r = last (cellsToCheck s); rest = butlast (cellsToCheck s) in
      if r \<in> cellsChecked s then Inr (s\<lparr>cellsToCheck := rest\<rparr>)
      else
        case read_cell (the_grid s) r of
          Inl e \<Rightarrow> Inl e
        | Inr cell \<Rightarrow>
            (case neighbors cell (the_grid s) of
               Inl e \<Rightarrow> Inl e
             | Inr (nbrs, g1) \<Rightarrow>
                 (case collect (map (read_cell g1) nbrs) of
                    Inl e \<Rightarrow> Inl e
                  | Inr neighborCells \<Rightarrow>
                      (let liveNeighbors = filter isAlive neighborCells in
                       case (if isAlive cell \<and> (length liveNeighbors < 2 \<or> length liveNeighbors > 3)
                             then Inr (g1, cellsToSwitch s @ [r])
                             else if \<not> isAlive cell \<and> length liveNeighbors = 3
                             then (case average_color blend liveNeighbors of
                                     Inl e \<Rightarrow> Inl e
                                   | Inr newColor \<Rightarrow>
                                       (case setColor newColor cell of
                                          Inl e \<Rightarrow> Inl e
                                        | Inr cell' \<Rightarrow> Inr (write_cell r cell' g1, cellsToSwitch s @ [r])))
                             else Inr (g1, cellsToSwitch s)) of
                         Inl e \<Rightarrow> Inl e
                       | Inr (g2, switch) \<Rightarrow>
                           Inr \<lparr>the_grid = g2,
                                cellsChecked = insert r (cellsChecked s),
                                cellsToSwitch = switch,
                                cellsToCheck = (if isAlive cell then rest @ nbrs else rest)\<rparr>))))"

function tick_loop :: "blend \<Rightarrow> tick_state \<Rightarrow> error + tick_state" where
  "tick_loop blend s =
     (if length (cellsToCheck s) > 0
      then (case tick_step blend s of Inl e \<Rightarrow> Inl e | Inr s' \<Rightarrow> tick_loop blend s')
      else Inr s)"
  by pat_completeness auto

text \<open>The final \<open>forEach\<close>: every collected cell changes sides.\<close>

fun switch_all :: "cell_ref list \<Rightarrow> Grid \<Rightarrow> error + Grid" where
  "switch_all [] g = Inr g"
| "switch_all (r # rs) g =
     (case read_cell g r of
        Inl e \<Rightarrow> Inl e
      | Inr cell \<Rightarrow>
          if isAlive cell then switch_all rs (write_cell r (setDead cell) g)
          else (case setAlive cell of
                  Inl e \<Rightarrow> Inl e
                | Inr cell' \<Rightarrow> switch_all rs (write_cell r cell' g)))"

definition tick :: "blend \<Rightarrow> Grid \<Rightarrow> error + Grid" where
  "tick blend g =
     (case tick_loop blend
             \<lparr>the_grid = g, cellsChecked = {}, cellsToSwitch = [],
              cellsToCheck = map fst (filter (\<lambda>(k, cell). isAlive cell) (grid g))\<rparr> of
        Inl e \<Rightarrow> Inl e
      | Inr s \<Rightarrow> switch_all (cellsToSwitch s) (the_grid s))"

text \<open>The positions next to a position, and the live cells there, in the order of \<open>offsets\<close>.\<close>

definition nbr_coords :: "Grid \<Rightarrow> Coordinates \<Rightarrow> Coordinates list" where
  "nbr_coords g c = filter (in_bounds g) (addOffsets c offsets)"

definition liveNeighbors_at :: "Grid \<Rightarrow> Coordinates \<Rightarrow> Cell list" where
  "liveNeighbors_at g c = filter isAlive (map (cellAt g) (nbr_coords g c))"

definition live_count :: "Grid \<Rightarrow> Coordinates \<Rightarrow> nat" where
  "live_count g c = length (liveNeighbors_at g c)"

text \<open>The measure of the loop: references that may still be examined, then the length of the stack.\<close>

definition unexamined :: "tick_state \<Rightarrow> cell_ref set" where
  "unexamined s =
     (Coordinates_toString ` {c. in_bounds (the_grid s) c} \<union> set (cellsToCheck s)) - cellsChecked s"

text \<open>The state in which the loop starts, and what the final \<open>forEach\<close> does to one cell.\<close>

definition tick_start :: "Grid \<Rightarrow> tick_state" where
  "tick_start g =
     \<lparr>the_grid = g, cellsChecked = {}, cellsToSwitch = [],
      cellsToCheck = map fst (filter (\<lambda>(k, cell). isAlive cell) (grid g))\<rparr>"

definition switched :: "Cell \<Rightarrow> Cell" where
  "switched cell = (if isAlive cell then setDead cell else cell\<lparr>isAlive := True\<rparr>)"

text \<open>The decision the loop body takes for the cell at a position, read off a grid.\<close>

definition flips :: "Grid \<Rightarrow> Coordinates \<Rightarrow> bool" where
  "flips g c \<longleftrightarrow>
     (if isAlive (cellAt g c) then live_count g c < 2 \<or> live_count g c > 3
      else live_count g c = 3)"

text \<open>The cell at a position once the loop has examined it: a dead cell that is to be
  revived already carries its new colour, any other cell is as before.\<close>

definition examined :: "blend \<Rightarrow> Grid \<Rightarrow> Coordinates \<Rightarrow> Cell" where
  "examined blend g c =
     (if \<not> isAlive (cellAt g c) \<and> live_count g c = 3
      then (case average_color blend (liveNeighbors_at g c) of
              Inl e \<Rightarrow> cellAt g c
            | Inr newColor \<Rightarrow> (cellAt g c)\<lparr>getColor := Some (map integer_value newColor)\<rparr>)
      else cellAt g c)"

text \<open>The invariant of the loop, relative to the grid \<open>g0\<close> the tick started from.\<close>

definition tick_inv :: "blend \<Rightarrow> Grid \<Rightarrow> tick_state \<Rightarrow> bool" where
  "tick_inv blend g0 s \<longleftrightarrow>
     grid_inv (the_grid s) \<and>
     getMaxX (the_grid s) = getMaxX g0 \<and> getMaxY (the_grid s) = getMaxY g0 \<and>
     (\<forall>r \<in> set (cellsToCheck s) \<union> cellsChecked s.
        \<exists>c. r = Coordinates_toString c \<and> in_bounds g0 c \<and> deref (the_grid s) r \<noteq> None) \<and>
     distinct (cellsToSwitch s) \<and>
     set (cellsToSwitch s) \<subseteq> cellsChecked s \<and>
     (\<forall>c. Coordinates_toString c \<in> cellsChecked s \<longrightarrow>
        (Coordinates_toString c \<in> set (cellsToSwitch s) \<longleftrightarrow> flips g0 c)) \<and>
     (\<forall>c. cellAt (the_grid s) c =
        (if Coordinates_toString c \<in> cellsChecked s then examined blend g0 c else cellAt g0 c)) \<and>
     (\<forall>c. isAlive (cellAt g0 c) \<longrightarrow>
        Coordinates_toString c \<in> cellsChecked s \<union> set (cellsToCheck s)) \<and>
     (\<forall>c d. Coordinates_toString c \<in> cellsChecked s \<and> isAlive (cellAt g0 c) \<and> d \<in> set (nbr_coords g0 c) \<longrightarrow>
        Coordinates_toString d \<in> cellsChecked s \<union> set (cellsToCheck s))"

text \<open>A position is near a live cell when its cell is alive or next to a live cell.\<close>

definition near_live :: "Grid \<Rightarrow> Coordinates \<Rightarrow> bool" where
  "near_live g c \<longleftrightarrow> isAlive (cellAt g c) \<or> (\<exists>e \<in> set (nbr_coords g c). isAlive (cellAt g e))"

definition reached_inv :: "Grid \<Rightarrow> tick_state \<Rightarrow> bool" where
  "reached_inv g0 s \<longleftrightarrow>
     (\<forall>r \<in> set (cellsToCheck s) \<union> cellsChecked s. \<exists>c. r = Coordinates_toString c \<and> near_live g0 c)"

text \<open>
  The naive transition, for comparison: every position within the bounds is judged by
  the classical rule on the grid before the tick. A live cell with fewer than two or
  more than three live neighbours dies and loses its colour, a dead cell with exactly
  three live neighbours is born with the blend of their colours, any other cell stays
  as it is.
\<close>

definition naive_cell :: "blend \<Rightarrow> Grid \<Rightarrow> Coordinates \<Rightarrow> Cell" where
  "naive_cell blend g c =
     (let cell = cellAt g c; n = length (filter isAlive (map (cellAt g) (nbr_coords g c))) in
      if isAlive cell then (if n < 2 \<or> n > 3 then setDead cell else cell)
      else if n = 3
      then (case average_color blend (filter isAlive (map (cellAt g) (nbr_coords g c))) of
              Inl e \<Rightarrow> cell
            | Inr newColor \<Rightarrow> cell\<lparr>isAlive := True, getColor := Some (map integer_value newColor)\<rparr>)
      else cell)"

text \<open>The blend hands \<open>setColor\<close> an array that passes its assertions, whenever the three
  colours it is given are valid.\<close>

definition blend_valid :: "blend \<Rightarrow> bool" where
  "blend_valid blend \<longleftrightarrow>
     (\<forall>c0 c1 c2. color_ok c0 \<and> color_ok c1 \<and> color_ok c2 \<longrightarrow>
        length (blend c0 c1 c2) = 3 \<and> (\<forall>v \<in> set (blend c0 c1 c2). channel_ok v))"

subsection \<open>Pattern placement\<close>

text \<open>
  \<open>allCoordinates\<close> is the Set of all keys within the bounds, built once by the
  constructor, row by row; the bounds never change, so it is a function of the grid.
\<close>

definition allCoordinates :: "Grid \<Rightarrow> string list" where
  "allCoordinates g =
     concat (map (\<lambda>y. map (\<lambda>x. Coordinates_toString \<lparr>getX = x, getY = y\<rparr>) [0..getMaxX g])
                 [0..getMaxY g])"

text \<open>\<open>String.prototype.split\<close> with a separator of one character.\<close>

fun split :: "char \<Rightarrow> string \<Rightarrow> string list" where
  "split sep [] = [[]]"
| "split sep (ch # s) =
     (if ch = sep then [] # split sep s
      else (case split sep s of [] \<Rightarrow> [[ch]] | part # parts \<Rightarrow> (ch # part) # parts))"

text \<open>
  \<open>parseInt\<close> without a radix, on strings without leading white space or \<open>0x\<close> prefix
  (the keys it is applied to consist of decimal digits, minus signs and a comma): an
  optional sign, then the longest prefix of decimal digits; \<open>NaN\<close> when there is none.
\<close>

definition is_digit :: "char \<Rightarrow> bool" where
  "is_digit ch \<longleftrightarrow> 48 \<le> (of_char ch :: nat) \<and> (of_char ch :: nat) \<le> 57"

definition digits_value :: "string \<Rightarrow> nat" where
  "digits_value s = foldl (\<lambda>n ch. 10 * n + (of_char ch - 48)) 0 s"

definition parseInt :: "string \<Rightarrow> number" where
  "parseInt s =
     (let (negative, body) =
            (case s of
               [] \<Rightarrow> (False, s)
             | ch # t \<Rightarrow> if ch = CHR ''-'' then (True, t) else if ch = CHR ''+'' then (False, t) else (False, s));
          ds = takeWhile is_digit body
      in if ds = [] then NaN
         else Finite (of_int (if negative then - int (digits_value ds) else int (digits_value ds))))"

text \<open>Mapping and filtering with a callback that reads or extends the grid and may throw.\<close>

fun map_on_grid :: "('a \<Rightarrow> Grid \<Rightarrow> error + 'b \<times> Grid) \<Rightarrow> 'a list \<Rightarrow> Grid \<Rightarrow> error + 'b list \<times> Grid" where
  "map_on_grid f [] g = Inr ([], g)"
| "map_on_grid f (x # xs) g =
     (case f x g of
        Inl e \<Rightarrow> Inl e
      | Inr (y, g') \<Rightarrow>
          (case map_on_grid f xs g' of
             Inl e \<Rightarrow> Inl e
           | Inr (ys, g'') \<Rightarrow> Inr (y # ys, g'')))"

fun filter_checked :: "('a \<Rightarrow> error + bool) \<Rightarrow> 'a list \<Rightarrow> error + 'a list" where
  "filter_checked p [] = Inr []"
| "filter_checked p (x # xs) =
     (case p x of
        Inl e \<Rightarrow> Inl e
      | Inr keep \<Rightarrow>
          (case filter_checked p xs of
             Inl e \<Rightarrow> Inl e
           | Inr ys \<Rightarrow> Inr (if keep then x # ys else ys)))"

text \<open>The Set of keys without the keys of the live cells, in the Set's order.\<close>

definition deadCoordinates :: "Grid \<Rightarrow> string list" where
  "deadCoordinates g =
     fold (\<lambda>cell dead. if isAlive cell then removeAll (Coordinates_toString (getCoordinates cell)) dead else dead)
          (map snd (grid g)) (allCoordinates g)"

text \<open>The callback of \<open>getAllDeadCells\<close>: \<open>[x, y] = string.split(",")\<close>, where a missing
  part is \<open>undefined\<close> and \<open>parseInt(undefined)\<close> is \<open>NaN\<close>, then \<open>getCell\<close>.\<close>

definition cell_of_key :: "string \<Rightarrow> Grid \<Rightarrow> error + cell_ref \<times> Grid" where
  "cell_of_key string g =
     (let (x, y) = (case split CHR '','' string of
                      [] \<Rightarrow> (NaN, NaN)
                    | [x] \<Rightarrow> (parseInt x, NaN)
                    | x # y # rest \<Rightarrow> (parseInt x, parseInt y))
      in case new_Coordinates x y of
           Inl e \<Rightarrow> Inl e
         | Inr coordinates \<Rightarrow> getCell coordinates g)"

definition getAllDeadCells :: "Grid \<Rightarrow> error + cell_ref list \<times> Grid" where
  "getAllDeadCells g = map_on_grid cell_of_key (deadCoordinates g) g"

text \<open>\<open>filterValidVariations\<close>: the cells of every variation are fetched first, then the
  variations without a live cell are kept.\<close>

definition no_live_cell :: "Grid \<Rightarrow> cell_ref list \<Rightarrow> error + bool" where
  "no_live_cell g variation =
     (case collect (map (read_cell g) variation) of
        Inl e \<Rightarrow> Inl e
      | Inr cells \<Rightarrow> Inr (length (filter (\<lambda>cell. \<not> isAlive cell) cells) = length variation))"

definition filterValidVariations ::
    "Cell \<Rightarrow> (int \<times> int) list list \<Rightarrow> Grid \<Rightarrow> error + cell_ref list list \<times> Grid" where
  "filterValidVariations cell variations g =
     (case map_on_grid (\<lambda>variation. getCells (addOffsets (getCoordinates cell) variation)) variations g of
        Inl e \<Rightarrow> Inl e
      | Inr (fetched, g') \<Rightarrow>
          (case filter_checked (no_live_cell g') fetched of
             Inl e \<Rightarrow> Inl e
           | Inr valid \<Rightarrow> Inr (valid, g')))"

text \<open>
  \<open>randomPop\<close>, given the value \<open>Math.random()\<close> returned: the element at the index
  (\<open>undefined\<close> outside the array) and the array after \<open>splice(index, 1)\<close>, which counts a
  negative index from the end and removes nothing at or beyond the length.
\<close>

definition randomPop :: "rat \<Rightarrow> 'a list \<Rightarrow> 'a option \<times> 'a list" where
  "randomPop random array =
     (let index = \<lfloor>random * of_nat (length array)\<rfloor>;
          element = (if 0 \<le> index \<and> index < int (length array) then Some (array ! nat index) else None);
          start = (if index < 0 then max (int (length array) + index) 0 else min index (int (length array)))
      in (element, take (nat start) array @ drop (nat start + 1) array))"

text \<open>
  The \<open>while\<close> loop of \<open>tryInstantiatePattern\<close>. \<open>random\<close> is the sequence of values
  that \<open>Math.random()\<close> returns and \<open>n\<close> counts the calls made so far. The result is
  \<open>cellsToSet\<close>, which stays \<open>undefined\<close> when the candidates run out.
\<close>

function placement_loop ::
    "(nat \<Rightarrow> rat) \<Rightarrow> nat \<Rightarrow> cell_ref list \<Rightarrow> (int \<times> int) list list \<Rightarrow> Grid \<Rightarrow>
     error + cell_ref list option \<times> nat \<times> Grid" where
  "placement_loop random n deadCells variations g =
     (if length deadCells > 0
      then (case randomPop (random n) deadCells of
              (None, deadCells') \<Rightarrow> Inl TypeError
            | (Some r, deadCells') \<Rightarrow>
                (case read_cell g r of
                   Inl e \<Rightarrow> Inl e
                 | Inr cell \<Rightarrow>
                     (case filterValidVariations cell variations g of
                        Inl e \<Rightarrow> Inl e
                      | Inr (validVariations, g') \<Rightarrow>
                          if length validVariations > 0
                          then Inr (fst (randomPop (random (n + 1)) validVariations), n + 2, g')
                          else placement_loop random (n + 1) deadCells' variations g')))
      else Inr (None, n, g))"
  by pat_completeness auto

text \<open>\<open>cellsToSet.forEach\<close>: every cell gets the colour and is set alive, at once.\<close>

fun set_cells :: "number list \<Rightarrow> cell_ref list \<Rightarrow> Grid \<Rightarrow> error + Grid" where
  "set_cells color [] g = Inr g"
| "set_cells color (r # rs) g =
     (case read_cell g r of
        Inl e \<Rightarrow> Inl e
      | Inr cell \<Rightarrow>
          (case setColor color cell of
             Inl e \<Rightarrow> Inl e
           | Inr cell' \<Rightarrow>
               (case setAlive cell' of
                  Inl e \<Rightarrow> Inl e
                | Inr cell'' \<Rightarrow> set_cells color rs (write_cell r cell'' g))))"

definition tryInstantiatePattern ::
    "(nat \<Rightarrow> rat) \<Rightarrow> cell_ref list \<Rightarrow> (int \<times> int) list list \<Rightarrow> number list \<Rightarrow> Grid \<Rightarrow> error + Grid" where
  "tryInstantiatePattern random deadCells variations color g =
     (case placement_loop random 0 deadCells variations g of
        Inl e \<Rightarrow> Inl e
      | Inr (cellsToSet, n, g') \<Rightarrow>
          (case cellsToSet of
             None \<Rightarrow> Inr g'
           | Some cells \<Rightarrow> set_cells color cells g'))"

text \<open>The three patterns: the filter on the candidate centres and the variations.\<close>

definition candidates :: "(Grid \<Rightarrow> Coordinates \<Rightarrow> bool) \<Rightarrow> Grid \<Rightarrow> error + cell_ref list \<times> Grid" where
  "candidates eligible g =
     (case getAllDeadCells g of
        Inl e \<Rightarrow> Inl e
      | Inr (cells, g') \<Rightarrow>
          (case filter_checked
                  (\<lambda>r. case read_cell g' r of Inl e \<Rightarrow> Inl e | Inr cell \<Rightarrow> Inr (eligible g' (getCoordinates cell)))
                  cells of
             Inl e \<Rightarrow> Inl e
           | Inr deadCells \<Rightarrow> Inr (deadCells, g')))"

definition block_center :: "Grid \<Rightarrow> Coordinates \<Rightarrow> bool" where
  "block_center g coordinates \<longleftrightarrow>
     (let x = getX coordinates; y = getY coordinates in x < getMaxX g \<and> y < getMaxY g)"

definition inner_center :: "Grid \<Rightarrow> Coordinates \<Rightarrow> bool" where
  "inner_center g coordinates \<longleftrightarrow>
     (let x = getX coordinates; y = getY coordinates
      in x > 0 \<and> x < getMaxX g \<and> y > 0 \<and> y < getMaxY g)"

definition block_variations :: "(int \<times> int) list list" where
  "block_variations = [[(0, 0), (1, 0), (0, 1), (1, 1)]]"

definition blinker_variations :: "(int \<times> int) list list" where
  "blinker_variations = [[(- 1, 0), (0, 0), (1, 0)], [(0, - 1), (0, 0), (0, 1)]]"

definition glider_variations :: "(int \<times> int) list list" where
  "glider_variations =
     [[(0, - 1), (1, 0), (- 1, 1), (0, 1), (1, 1)],
      [(- 1, - 1), (1, - 1), (0, 0), (1, 0), (0, 1)],
      [(- 1, 0), (0, 1), (1, 1), (1, 0), (1, - 1)],
      [(- 1, - 1), (0, 0), (1, 0), (- 1, 1), (0, 1)]]"

definition tryGenerate ::
    "(Grid \<Rightarrow> Coordinates \<Rightarrow> bool) \<Rightarrow> (int \<times> int) list list \<Rightarrow> (nat \<Rightarrow> rat) \<Rightarrow> number list \<Rightarrow> Grid \<Rightarrow>
     error + Grid" where
  "tryGenerate eligible variations random color g =
     (case candidates eligible g of
        Inl e \<Rightarrow> Inl e
      | Inr (deadCells, g') \<Rightarrow> tryInstantiatePattern random deadCells variations color g')"

definition tryGenerateBlock :: "(nat \<Rightarrow> rat) \<Rightarrow> number list \<Rightarrow> Grid \<Rightarrow> error + Grid" where
  "tryGenerateBlock = tryGenerate block_center block_variations"

definition tryGenerateBlinker :: "(nat \<Rightarrow> rat) \<Rightarrow> number list \<Rightarrow> Grid \<Rightarrow> error + Grid" where
  "tryGenerateBlinker = tryGenerate inner_center blinker_variations"

definition tryGenerateGlider :: "(nat \<Rightarrow> rat) \<Rightarrow> number list \<Rightarrow> Grid \<Rightarrow> error + Grid" where
  "tryGenerateGlider = tryGenerate inner_center glider_variations"

text \<open>The positions within the bounds in the order of \<open>allCoordinates\<close>, and those whose
  cell is not alive.\<close>

definition all_positions :: "Grid \<Rightarrow> Coordinates list" where
  "all_positions g = concat (map (\<lambda>y. map (\<lambda>x. \<lparr>getX = x, getY = y\<rparr>) [0..getMaxX g]) [0..getMaxY g])"

definition dead_positions :: "Grid \<Rightarrow> Coordinates list" where
  "dead_positions g = filter (\<lambda>c. \<not> isAlive (cellAt g c)) (all_positions g)"

text \<open>A variation fits at a centre when none of its positions holds a live cell.\<close>

definition fits :: "Grid \<Rightarrow> Coordinates \<Rightarrow> (int \<times> int) list \<Rightarrow> bool" where
  "fits g c variation \<longleftrightarrow> (\<forall>d \<in> set (addOffsets c variation). \<not> isAlive (cellAt g d))"

text \<open>A centre is safe for a pattern when it and every position of every variation lie
  within the bounds; a filter on centres depends on the bounds only when grids with
  equal bounds give the same filter.\<close>

definition safe_center :: "Grid \<Rightarrow> (int \<times> int) list list \<Rightarrow> Coordinates \<Rightarrow> bool" where
  "safe_center g variations c \<longleftrightarrow>
     in_bounds g c \<and> (\<forall>v \<in> set variations. \<forall>d \<in> set (addOffsets c v). in_bounds g d)"

definition bounds_only :: "(Grid \<Rightarrow> Coordinates \<Rightarrow> bool) \<Rightarrow> bool" where
  "bounds_only eligible \<longleftrightarrow>
     (\<forall>g g'. getMaxX g' = getMaxX g \<and> getMaxY g' = getMaxY g \<longrightarrow> eligible g' = eligible g)"

text \<open>A variation can be placed at a centre when the centre is a dead cell within the
  bounds that passes the pattern's filter, and the variation fits there.\<close>

definition placeable ::
    "(Grid \<Rightarrow> Coordinates \<Rightarrow> bool) \<Rightarrow> (int \<times> int) list list \<Rightarrow> Grid \<Rightarrow> Coordinates \<Rightarrow> (int \<times> int) list \<Rightarrow> bool" where
  "placeable eligible variations g c v \<longleftrightarrow>
     in_bounds g c \<and> \<not> isAlive (cellAt g c) \<and> eligible g c \<and> v \<in> set variations \<and> fits g c v"

text \<open>The cell at a position after a pattern has been placed on it.\<close>

definition placed_cell :: "number list \<Rightarrow> Coordinates \<Rightarrow> Cell" where
  "placed_cell color c = \<lparr>getCoordinates = c, isAlive = True, getColor = Some (map integer_value color)\<rparr>"

definition valid_rgb :: "number list \<Rightarrow> bool" where
  "valid_rgb color \<longleftrightarrow> length color = 3 \<and> (\<forall>v \<in> set color. channel_ok v)"

text \<open>What a placement attempt leaves behind: no cell differs exactly when no variation can
  be placed anywhere, and otherwise the cells of one placeable variation are alive in
  the given colour and every other cell is as before.\<close>

definition placement_outcome ::
    "(Grid \<Rightarrow> Coordinates \<Rightarrow> bool) \<Rightarrow> (int \<times> int) list list \<Rightarrow> number list \<Rightarrow> Grid \<Rightarrow> Grid \<Rightarrow> bool" where
  "placement_outcome eligible variations color g g' \<longleftrightarrow>
     ((\<forall>e. cellAt g' e = cellAt g e) \<longleftrightarrow> \<not> (\<exists>c v. placeable eligible variations g c v)) \<and>
     ((\<exists>c v. placeable eligible variations g c v) \<longrightarrow>
        (\<exists>c v. placeable eligible variations g c v \<and>
           (\<forall>e. cellAt g' e = (if e \<in> set (addOffsets c v) then placed_cell color e else cellAt g e))))"

text \<open>A sequence of draws that is constant, and empty grids, to evaluate on.\<close>

definition every_draw :: "rat \<Rightarrow> nat \<Rightarrow> rat" where
  "every_draw u n = u"

definition empty_grid :: "int \<Rightarrow> int \<Rightarrow> Grid" where
  "empty_grid maxX maxY = \<lparr>getMaxX = maxX, getMaxY = maxY, grid = []\<rparr>"

subsection \<open>Serialization\<close>

text \<open>\<open>String.prototype.slice(-2)\<close>: the last two characters, or the whole string when it is shorter.\<close>

definition slice_last2 :: "string \<Rightarrow> string" where
  "slice_last2 s = drop (length s - 2) s"

text \<open>The string of one live cell; \<open>cell.getColor().join\<close> throws when the colour is \<open>null\<close>.\<close>

definition serialize_cell :: "Cell \<Rightarrow> error + string" where
  "serialize_cell cell =
     (case getColor cell of
        None \<Rightarrow> Inl TypeError
      | Some col \<Rightarrow>
          Inr (join '',''
                 [Number_toString (getX (getCoordinates cell)),
                  Number_toString (getY (getCoordinates cell)),
                  join '','' (map Number_toString col)]))"

text \<open>\<open>serialize\<close> reads the clock; the three readings are parameters here.\<close>

definition serialize :: "nat \<Rightarrow> nat \<Rightarrow> nat \<Rightarrow> Grid \<Rightarrow> error + string" where
  "serialize hours minutes seconds g =
     (let date = join []
                   [slice_last2 (''0'' @ Number_toString (int hours)),
                    slice_last2 (''0'' @ Number_toString (int minutes)),
                    slice_last2 (''0'' @ Number_toString (int seconds))]
      in case collect (map serialize_cell (filter isAlive (map snd (grid g)))) of
           Inl e \<Rightarrow> Inl e
         | Inr segments \<Rightarrow>
             (let cells = join ''|'' segments
              in Inr (if length cells > 0 then join ''|'' [date, cells] else date)))"

text \<open>The documented format, for comparison: two decimal digits per clock component,
  and five unpadded decimal integers separated by commas per live cell.\<close>

definition pad2 :: "nat \<Rightarrow> string" where
  "pad2 n = [digit_char (n div 10), digit_char (n mod 10)]"

definition HHMMSS :: "nat \<Rightarrow> nat \<Rightarrow> nat \<Rightarrow> string" where
  "HHMMSS hours minutes seconds = pad2 hours @ pad2 minutes @ pad2 seconds"

definition segment :: "int \<Rightarrow> int \<Rightarrow> int \<Rightarrow> int \<Rightarrow> int \<Rightarrow> string" where
  "segment x y r gr b =
     Number_toString x @ '','' @ Number_toString y @ '','' @
     Number_toString r @ '','' @ Number_toString gr @ '','' @ Number_toString b"

definition live_cells :: "Grid \<Rightarrow> Cell list" where
  "live_cells g = filter isAlive (map snd (grid g))"

definition is_segment_of :: "string \<Rightarrow> Cell \<Rightarrow> bool" where
  "is_segment_of seg cell \<longleftrightarrow>
     (\<exists>r gr b. getColor cell = Some [r, gr, b] \<and>
        seg = segment (getX (getCoordinates cell)) (getY (getCoordinates cell)) r gr b)"

subsection \<open>A grid to evaluate on\<close>

text \<open>A 3 by 3 grid holding a horizontal blinker in its middle row, each cell of its own colour.\<close>

definition live_cell :: "int \<Rightarrow> int \<Rightarrow> int list \<Rightarrow> Cell" where
  "live_cell x y col = \<lparr>getCoordinates = \<lparr>getX = x, getY = y\<rparr>, isAlive = True, getColor = Some col\<rparr>"

definition blinker_grid :: Grid where
  "blinker_grid =
     \<lparr>getMaxX = 2, getMaxY = 2,
      grid = [(''0,1'', live_cell 0 1 [255, 0, 0]),
              (''1,1'', live_cell 1 1 [0, 255, 0]),
              (''2,1'', live_cell 2 1 [0, 0, 255])]\<rparr>"

text \<open>The same grid one generation later, as the transition leaves it: the blinker stands
  upright, and the dead cells the loop touched are in the Map.\<close>

definition dead_cell :: "int \<Rightarrow> int \<Rightarrow> Cell" where
  "dead_cell x y = \<lparr>getCoordinates = \<lparr>getX = x, getY = y\<rparr>, isAlive = False, getColor = None\<rparr>"

definition blinker_grid_next :: Grid where
  "blinker_grid_next =
     \<lparr>getMaxX = 2, getMaxY = 2,
      grid = [(''0,1'', dead_cell 0 1),
              (''1,1'', live_cell 1 1 [0, 255, 0]),
              (''2,1'', dead_cell 2 1),
              (''1,0'', live_cell 1 0 [255, 0, 0]),
              (''2,0'', dead_cell 2 0),
              (''1,2'', live_cell 1 2 [255, 0, 0]),
              (''2,2'', dead_cell 2 2),
              (''0,2'', dead_cell 0 2),
              (''0,0'', dead_cell 0 0)]\<rparr>"

text \<open>A blend to evaluate with: it returns the first of the three colours.\<close>

definition first_color :: blend where
  "first_color c0 c1 c2 = map (\<lambda>v. Finite (of_int v)) c0"

text \<open>
  The blend of the \<open>color-space\<close> package on three black colours. Its \<open>lab.xyz\<close> compares
  \<open>x\<close> and \<open>z\<close> with the threshold of the linear branch before they are assigned, the
  comparison of \<open>undefined\<close> is false, and the cubic branch is taken for every input.
  Black is L = 0, a = 0, b = 0 and so is the mean of three blacks; the conversion back
  gives y = 0, x = 95.047 * (16/116)^3 and z = 108.883 * (16/116)^3, of which \<open>xyz.rgb\<close>
  makes about 19.3, 0 and 10.4, and \<open>Math.round\<close> 19, 0 and 10. The blend below has
  these values on three black colours; elsewhere it returns the first colour.
\<close>

definition black_blend :: blend where
  "black_blend c0 c1 c2 =
     (if c0 = [0, 0, 0] \<and> c1 = [0, 0, 0] \<and> c2 = [0, 0, 0] then [Integer 19, Integer 0, Integer 10]
      else first_color c0 c1 c2)"

text \<open>The 3 by 3 grid with a horizontal blinker of three black cells, and the grid that
  the transition with this blend makes of it.\<close>

definition black_grid :: Grid where
  "black_grid =
     \<lparr>getMaxX = 2, getMaxY = 2,
      grid = [(''0,1'', live_cell 0 1 [0, 0, 0]),
              (''1,1'', live_cell 1 1 [0, 0, 0]),
              (''2,1'', live_cell 2 1 [0, 0, 0])]\<rparr>"

definition black_grid_next :: Grid where
  "black_grid_next =
     \<lparr>getMaxX = 2, getMaxY = 2,
      grid = [(''0,1'', dead_cell 0 1),
              (''1,1'', live_cell 1 1 [0, 0, 0]),
              (''2,1'', dead_cell 2 1),
              (''1,0'', live_cell 1 0 [19, 0, 10]),
              (''2,0'', dead_cell 2 0),
              (''1,2'', live_cell 1 2 [19, 0, 10]),
              (''2,2'', dead_cell 2 2),
              (''0,2'', dead_cell 0 2),
              (''0,0'', dead_cell 0 0)]\<rparr>"

section \<open>Facts about numbers and strings\<close>

lemma Number_isInteger_Integer [simp]: "Number_isInteger (Integer n)"
  by simp

lemma integer_value_Integer [simp]: "integer_value (Integer n) = n"
  by simp

lemma channel_ok_Integer [simp]: "channel_ok (Integer n) \<longleftrightarrow> 0 \<le> n \<and> n \<le> 255"
  by (auto simp: channel_ok_def)

lemma channel_ok_range: "channel_ok v \<Longrightarrow> 0 \<le> integer_value v \<and> integer_value v \<le> 255"
  by (cases v) (auto simp: channel_ok_def not_less)

lemma of_char_digit_char: "d < 10 \<Longrightarrow> (of_char (digit_char d) :: nat) = 48 + d"
  by (simp add: digit_char_def)

lemma digit_char_inj: "d < 10 \<Longrightarrow> e < 10 \<Longrightarrow> digit_char d = digit_char e \<Longrightarrow> d = e"
proof -
  assume d: "d < 10" and e: "e < 10" and eq: "digit_char d = digit_char e"
  have "48 + d = (of_char (digit_char d) :: nat)" using d by (simp only: of_char_digit_char)
  also have "\<dots> = of_char (digit_char e)" by (simp only: eq)
  also have "\<dots> = 48 + e" using e by (simp only: of_char_digit_char)
  finally show "d = e" by simp
qed

lemma digits_chars: "ch \<in> set (digits n) \<Longrightarrow> 48 \<le> (of_char ch :: nat) \<and> (of_char ch :: nat) \<le> 57"
proof (induction n rule: digits.induct)
  case (1 n)
  show ?case
  proof (cases "n < 10")
    case True
    with "1.prems" have "ch = digit_char n" by (simp add: digits.simps [of n])
    with True show ?thesis by (simp add: of_char_digit_char)
  next
    case False
    with "1.prems" have "ch \<in> set (digits (n div 10)) \<or> ch = digit_char (n mod 10)"
      by (auto simp: digits.simps [of n])
    then show ?thesis
    proof
      assume "ch \<in> set (digits (n div 10))"
      with "1.IH" False show ?thesis by simp
    next
      assume "ch = digit_char (n mod 10)"
      then show ?thesis by (simp add: of_char_digit_char)
    qed
  qed
qed

lemma digits_not_Nil [simp]: "digits n \<noteq> []" "[] \<noteq> digits n"
  by (simp_all add: digits.simps [of n])

lemma digits_inj: "digits m = digits n \<Longrightarrow> m = n"
proof (induction m arbitrary: n rule: digits.induct)
  case (1 m)
  show ?case
  proof (cases "m < 10")
    case m: True
    show ?thesis
    proof (cases "n < 10")
      case True
      with m "1.prems" show ?thesis
        by (simp add: digits.simps [of m] digits.simps [of n] digit_char_inj)
    next
      case False
      with m "1.prems" show ?thesis
        by (simp add: digits.simps [of m] digits.simps [of n] append_eq_Cons_conv)
    qed
  next
    case m: False
    show ?thesis
    proof (cases "n < 10")
      case True
      with m "1.prems" show ?thesis
        by (simp add: digits.simps [of m] digits.simps [of n] Cons_eq_append_conv)
    next
      case False
      with m "1.prems" have "digits (m div 10) = digits (n div 10)"
        and "digit_char (m mod 10) = digit_char (n mod 10)"
        by (simp_all add: digits.simps [of m] digits.simps [of n])
      with "1.IH" m have "m div 10 = n div 10" and "m mod 10 = n mod 10"
        by (auto intro: digit_char_inj)
      then show ?thesis
        by (metis div_mult_mod_eq)
    qed
  qed
qed

lemma comma_notin_digits: "CHR '','' \<notin> set (digits n)"
  using digits_chars [of "CHR '',''" n] by auto

lemma minus_notin_digits: "CHR ''-'' \<notin> set (digits n)"
  using digits_chars [of "CHR ''-''" n] by auto

lemma comma_notin_Number_toString: "CHR '','' \<notin> set (Number_toString n)"
  by (simp add: Number_toString_def comma_notin_digits)

lemma Number_toString_inj: "Number_toString m = Number_toString n \<Longrightarrow> m = n"
proof -
  assume eq: "Number_toString m = Number_toString n"
  have hd_digits: "\<And>k. hd (digits k) \<noteq> CHR ''-''"
    using minus_notin_digits digits_not_Nil(1) by (metis list.set_sel(1))
  consider "m < 0" "n < 0" | "m < 0" "\<not> n < 0" | "\<not> m < 0" "n < 0" | "\<not> m < 0" "\<not> n < 0"
    by blast
  then show ?thesis
  proof cases
    case 1
    with eq have "digits (nat (- m)) = digits (nat (- n))" by (simp add: Number_toString_def)
    then have "nat (- m) = nat (- n)" by (rule digits_inj)
    with 1 show ?thesis by simp
  next
    case 2
    with eq have "CHR ''-'' # digits (nat (- m)) = digits (nat n)" by (simp add: Number_toString_def)
    then have "hd (digits (nat n)) = CHR ''-''" by (metis list.sel(1))
    with hd_digits show ?thesis by simp
  next
    case 3
    with eq have "digits (nat m) = CHR ''-'' # digits (nat (- n))" by (simp add: Number_toString_def)
    then have "hd (digits (nat m)) = CHR ''-''" by (metis list.sel(1))
    with hd_digits show ?thesis by simp
  next
    case 4
    with eq have "digits (nat m) = digits (nat n)" by (simp add: Number_toString_def)
    then have "nat m = nat n" by (rule digits_inj)
    with 4 show ?thesis by simp
  qed
qed

lemma append_sep_eq:
  assumes "s @ sep # t = s' @ sep # t'" and "sep \<notin> set s" and "sep \<notin> set s'"
  shows "s = s' \<and> t = t'"
  using assms
proof (induction s arbitrary: s')
  case Nil
  then show ?case by (cases s') auto
next
  case (Cons a s)
  then show ?case by (cases s') auto
qed

text \<open>The key is unique for each pair of coordinates, as the source requires of it.\<close>

lemma Coordinates_toString_inj [simp]:
  "Coordinates_toString c = Coordinates_toString d \<longleftrightarrow> c = d"
proof
  assume "Coordinates_toString c = Coordinates_toString d"
  then have "Number_toString (getX c) = Number_toString (getX d) \<and>
             Number_toString (getY c) = Number_toString (getY d)"
    unfolding Coordinates_toString_def
    by (intro append_sep_eq [where sep = "CHR '',''"]) (simp_all add: comma_notin_Number_toString)
  then have "getX c = getX d \<and> getY c = getY d"
    by (auto dest: Number_toString_inj)
  then show "c = d"
    by simp
qed simp

section \<open>Coordinates: construction\<close>

lemma new_Coordinates_Integer: "new_Coordinates (Integer a) (Integer b) = Inr \<lparr>getX = a, getY = b\<rparr>"
  by (simp add: new_Coordinates_def)

text \<open>
  C5, as amended. Constructing coordinates fails exactly when one of the arguments is
  not an integer; for integers of either sign it succeeds and the accessors return the
  given values.
\<close>

theorem new_Coordinates_fails_iff:
  "(new_Coordinates x y = Inl AssertionError \<longleftrightarrow> \<not> Number_isInteger x \<or> \<not> Number_isInteger y) \<and>
   new_Coordinates (Integer a) (Integer b) = Inr \<lparr>getX = a, getY = b\<rparr>"
  by (simp add: new_Coordinates_def)

theorem new_Coordinates_fails_iff_witness:
  "new_Coordinates NaN (Integer 3) = Inl AssertionError \<and>
   new_Coordinates (Integer (- 4)) (Integer 7) = Inr \<lparr>getX = - 4, getY = 7\<rparr>"
  using new_Coordinates_fails_iff [of NaN "Integer 3" "- 4" 7]
  by simp

text \<open>
  C5, as stated, fails: \<open>new Coordinates(-1, 0)\<close> has a negative argument and is
  constructed; \<open>neighbors\<close> relies on this for the cells of the first row and column.
\<close>

theorem new_Coordinates_negative_counterexample:
  "number_less_zero (Integer (- 1)) \<and>
   new_Coordinates (Integer (- 1)) (Integer 0) = Inr \<lparr>getX = - 1, getY = 0\<rparr>"
  using new_Coordinates_Integer [of "- 1" 0] by simp

section \<open>Cell: the colour invariant\<close>

lemma setColor_Inr:
  assumes "setColor newColor cell = Inr cell'"
  shows "cell' = cell\<lparr>getColor := Some (map integer_value newColor)\<rparr>"
    and "color_ok (map integer_value newColor)"
proof -
  from assms have len: "length newColor = 3"
    and ch: "channel_ok (newColor ! 0)" "channel_ok (newColor ! 1)" "channel_ok (newColor ! 2)"
    and upd: "cell' = cell\<lparr>getColor := Some (map integer_value newColor)\<rparr>"
    by (auto simp: setColor_def split: if_splits)
  show "cell' = cell\<lparr>getColor := Some (map integer_value newColor)\<rparr>" by (rule upd)
  have "\<forall>v \<in> set newColor. channel_ok v"
  proof
    fix v assume "v \<in> set newColor"
    then obtain i where "i < 3" "v = newColor ! i"
      using len by (auto simp: in_set_conv_nth)
    then have "i = 0 \<or> i = 1 \<or> i = 2" by arith
    with ch \<open>v = newColor ! i\<close> show "channel_ok v" by auto
  qed
  then show "color_ok (map integer_value newColor)"
    using len by (auto simp: color_ok_def dest: channel_ok_range)
qed

lemma setColor_cell_inv: "setColor newColor cell = Inr cell' \<Longrightarrow> cell_inv cell'"
  using setColor_Inr [of newColor cell cell'] by (simp add: cell_inv_def)

lemma setAlive_cell_inv: "cell_inv cell \<Longrightarrow> setAlive cell = Inr cell' \<Longrightarrow> cell_inv cell'"
  by (auto simp: setAlive_def cell_inv_def split: option.splits)

lemma setDead_cell_inv: "cell_inv (setDead cell)"
  by (simp add: setDead_def cell_inv_def)

lemma apply_cell_op_cell_inv:
  "cell_inv cell \<Longrightarrow> apply_cell_op op cell = Inr cell' \<Longrightarrow> cell_inv cell'"
  by (cases op) (auto intro: setColor_cell_inv setAlive_cell_inv setDead_cell_inv)

lemma run_cell_ops_cell_inv: "cell_inv cell \<Longrightarrow> cell_inv (run_cell_ops ops cell)"
  by (induction ops arbitrary: cell) (auto split: sum.splits dest: apply_cell_op_cell_inv)

lemma new_Cell_cell_inv: "cell_inv (new_Cell c)"
  by (simp add: new_Cell_def cell_inv_def)

text \<open>
  C3, as amended. After any sequence of \<open>setColor\<close>, \<open>setAlive\<close> and \<open>setDead\<close> on a
  new cell, a live cell has a colour of three integers in [0,255], and any colour a
  dead cell still holds is such a triplet too. \<open>setAlive\<close> fails when no colour has been
  set, and \<open>setDead\<close> leaves the cell dead with its colour cleared.
\<close>

theorem cell_ops_invariant:
  "(let cell = run_cell_ops ops (new_Cell c) in
      (isAlive cell \<longrightarrow> (\<exists>col. getColor cell = Some col \<and> color_ok col)) \<and>
      (\<forall>col. getColor cell = Some col \<longrightarrow> color_ok col) \<and>
      (getColor cell = None \<longrightarrow> setAlive cell = Inl AssertionError) \<and>
      \<not> isAlive (setDead cell) \<and> getColor (setDead cell) = None)"
proof -
  have "cell_inv (run_cell_ops ops (new_Cell c))"
    by (rule run_cell_ops_cell_inv [OF new_Cell_cell_inv])
  then show ?thesis
    by (auto simp: Let_def cell_inv_def setAlive_def setDead_def split: option.splits)
qed

theorem cell_ops_invariant_witness:
  "(let cell = run_cell_ops [SetAlive, SetColor [Integer 10, Integer 20, Integer 255], SetAlive] (new_Cell \<lparr>getX = 0, getY = 0\<rparr>) in
      isAlive cell \<and> getColor cell = Some [10, 20, 255] \<and> color_ok [10, 20, 255])"
  using cell_ops_invariant [of "[SetAlive, SetColor [Integer 10, Integer 20, Integer 255], SetAlive]" "\<lparr>getX = 0, getY = 0\<rparr>"]
  by (simp add: Let_def new_Cell_def setAlive_def setColor_def channel_ok_def)

text \<open>
  C3, as stated, fails: a new cell that has only been given a colour is dead and has a
  colour. This is the state between the two calls of \<open>setColor(color).setAlive()\<close>.
\<close>

theorem dead_cell_with_color_counterexample:
  "\<not> isAlive (run_cell_ops [SetColor [Integer 1, Integer 2, Integer 3]] (new_Cell \<lparr>getX = 0, getY = 0\<rparr>)) \<and>
   getColor (run_cell_ops [SetColor [Integer 1, Integer 2, Integer 3]] (new_Cell \<lparr>getX = 0, getY = 0\<rparr>)) =
     Some [1, 2, 3]"
  by (simp add: new_Cell_def setColor_def channel_ok_def)

section \<open>Grid: reading cells\<close>

lemma digit_char_values:
  "digit_char 0 = CHR ''0''" "digit_char 1 = CHR ''1''" "digit_char 2 = CHR ''2''"
  "digit_char 3 = CHR ''3''" "digit_char 4 = CHR ''4''" "digit_char 5 = CHR ''5''"
  "digit_char 6 = CHR ''6''" "digit_char 7 = CHR ''7''" "digit_char 8 = CHR ''8''"
  "digit_char 9 = CHR ''9''" "digit_char (Suc 0) = CHR ''1''"
  by code_simp+

lemmas key_eval = Coordinates_toString_def Number_toString_def digits.simps digit_char_values

lemma getCell_eq:
  "getCell c g = (if in_bounds g c then Inr (Coordinates_toString c, materialize c g) else Inl AssertionError)"
  by (auto simp: getCell_def setCell_def in_bounds_def materialize_def deref_def write_cell_def new_Cell_def
           split: option.splits)

lemma deref_write_cell [simp]: "deref (write_cell r cell g) k = (if k = r then Some cell else deref g k)"
  by (simp add: deref_def write_cell_def update_conv')

lemma bounds_write_cell [simp]:
  "getMaxX (write_cell r cell g) = getMaxX g" "getMaxY (write_cell r cell g) = getMaxY g"
  "in_bounds (write_cell r cell g) = in_bounds g"
  by (simp_all add: write_cell_def in_bounds_def fun_eq_iff)

lemma deref_materialize:
  "deref (materialize c g) k =
     (if k = Coordinates_toString c \<and> deref g k = None then Some (new_Cell c) else deref g k)"
  by (auto simp: materialize_def split: option.splits)

lemma bounds_materialize [simp]:
  "getMaxX (materialize c g) = getMaxX g" "getMaxY (materialize c g) = getMaxY g"
  "in_bounds (materialize c g) = in_bounds g"
  by (simp_all add: materialize_def split: option.splits)

lemma materialize_idem [simp]: "materialize c (materialize c g) = materialize c g"
  by (simp add: materialize_def split: option.splits)

lemma materialize_present: "deref g (Coordinates_toString c) = Some cell \<Longrightarrow> materialize c g = g"
  by (simp add: materialize_def)

lemma cellAt_materialize [simp]: "cellAt (materialize c g) d = cellAt g d"
  by (auto simp: cellAt_def deref_materialize split: option.splits)

lemma getCells_eq:
  "getCells cs g =
     (if \<forall>c \<in> set cs. in_bounds g c then Inr (map Coordinates_toString cs, fold materialize cs g)
      else Inl AssertionError)"
proof (induction cs arbitrary: g)
  case Nil
  show ?case by simp
next
  case (Cons c cs)
  show ?case
    by (simp add: getCell_eq Cons.IH)
qed

lemma deref_fold_materialize_Some:
  "deref g k = Some cell \<Longrightarrow> deref (fold materialize cs g) k = Some cell"
  by (induction cs arbitrary: g) (simp_all add: deref_materialize)

lemma bounds_fold_materialize [simp]:
  "getMaxX (fold materialize cs g) = getMaxX g" "getMaxY (fold materialize cs g) = getMaxY g"
  "in_bounds (fold materialize cs g) = in_bounds g"
  by (induction cs arbitrary: g) simp_all

lemma cellAt_fold_materialize [simp]: "cellAt (fold materialize cs g) d = cellAt g d"
  by (induction cs arbitrary: g) simp_all

section \<open>Serialization\<close>

lemma slice_last2_pad2: "n < 100 \<Longrightarrow> slice_last2 (CHR ''0'' # Number_toString (int n)) = pad2 n"
proof (cases "n < 10")
  case True
  then show ?thesis
    by (simp add: slice_last2_def Number_toString_def digits.simps [of n] pad2_def digit_char_values)
next
  case False
  assume "n < 100"
  with False have "n div 10 < 10" "\<not> n < 10" by simp_all
  then have "digits n = [digit_char (n div 10), digit_char (n mod 10)]"
    by (simp add: digits.simps [of n] digits.simps [of "n div 10"])
  then show ?thesis
    by (simp add: slice_last2_def Number_toString_def pad2_def)
qed

lemma join_Cons: "join sep (s # ss) = s @ concat (map (\<lambda>t. sep @ t) ss)"
  by (induction ss arbitrary: s) simp_all

lemma collect_map_Inr: "collect (map (\<lambda>x. Inr (f x)) xs) = Inr (map f xs)"
  by (induction xs) simp_all

lemma Number_toString_not_Nil [simp]: "Number_toString n \<noteq> []"
  by (simp add: Number_toString_def)

lemma pipe_notin_Number_toString: "CHR ''|'' \<notin> set (Number_toString n)"
  using digits_chars [of "CHR ''|''"] by (auto simp: Number_toString_def)

lemma pipe_notin_segment: "CHR ''|'' \<notin> set (segment x y r gr b)"
  by (simp add: segment_def pipe_notin_Number_toString)

lemma count_list_notin: "a \<notin> set xs \<Longrightarrow> count_list xs a = 0"
  by (induction xs) auto

lemma digit_char_is_digit: "d < 10 \<Longrightarrow> digit_char d \<in> set ''0123456789''"
proof -
  assume "d < 10"
  then have "d \<in> {0, 1, 2, 3, 4, 5, 6, 7, 8, 9}" by auto
  then show ?thesis by (auto simp: digit_char_values)
qed

lemma digit_chars_pad2: "n < 100 \<Longrightarrow> ch \<in> set (pad2 n) \<Longrightarrow> ch \<in> set ''0123456789''"
proof -
  assume "n < 100" and "ch \<in> set (pad2 n)"
  then have "ch = digit_char (n div 10) \<or> ch = digit_char (n mod 10)"
    by (auto simp: pad2_def)
  moreover from \<open>n < 100\<close> have "n div 10 < 10" "n mod 10 < 10" by simp_all
  ultimately show ?thesis
    using digit_char_is_digit by blast
qed

lemma live_cell_segment:
  assumes "cell_inv cell" and "isAlive cell"
  shows "\<exists>seg. serialize_cell cell = Inr seg \<and> is_segment_of seg cell"
proof -
  from assms obtain col where col: "getColor cell = Some col" "color_ok col"
    by (auto simp: cell_inv_def split: option.splits)
  then have "length col = 3" by (simp add: color_ok_def)
  then obtain r gr b where "col = [r, gr, b]"
    by (auto simp: length_Suc_conv numeral_3_eq_3)
  with col show ?thesis
    by (simp add: serialize_cell_def is_segment_of_def segment_def)
qed

lemma is_segment_of_facts: "is_segment_of seg cell \<Longrightarrow> seg \<noteq> [] \<and> CHR ''|'' \<notin> set seg"
  by (auto simp: is_segment_of_def pipe_notin_segment) (simp add: segment_def)

lemma collect_serialize_cells:
  assumes "\<forall>cell \<in> set cs. cell_inv cell \<and> isAlive cell"
  shows "\<exists>segments. collect (map serialize_cell cs) = Inr segments \<and> list_all2 is_segment_of segments cs"
  using assms
proof (induction cs)
  case Nil
  show ?case by simp
next
  case (Cons cell cs)
  then obtain segments where "collect (map serialize_cell cs) = Inr segments"
    "list_all2 is_segment_of segments cs"
    by auto
  moreover from Cons.prems obtain seg where "serialize_cell cell = Inr seg" "is_segment_of seg cell"
    using live_cell_segment [of cell] by auto
  ultimately show ?case by simp
qed

lemma grid_inv_live_cells: "grid_inv g \<Longrightarrow> cell \<in> set (live_cells g) \<Longrightarrow> cell_inv cell \<and> isAlive cell"
  by (auto simp: grid_inv_def live_cells_def)

text \<open>
  C9. With clock readings in range and a grid that satisfies its invariant,
  \<open>serialize\<close> returns the six digits \<open>HHMMSS\<close> followed, for each live cell in the
  Map's order, by a pipe and that cell's \<open>x,y,r,g,b\<close> segment of unpadded decimal
  integers. There are as many segments as live cells and no segment contains a pipe,
  so the pipes count the live cells; with no live cell the result is the timestamp.
\<close>

theorem serialize_format:
  assumes "hours < 24" and "minutes < 60" and "seconds < 60" and "grid_inv g"
  shows "\<exists>segments.
           serialize hours minutes seconds g =
             Inr (HHMMSS hours minutes seconds @ concat (map (\<lambda>seg. ''|'' @ seg) segments)) \<and>
           list_all2 is_segment_of segments (live_cells g) \<and>
           length segments = length (live_cells g) \<and>
           (\<forall>seg \<in> set segments. CHR ''|'' \<notin> set seg) \<and>
           length (HHMMSS hours minutes seconds) = 6 \<and>
           set (HHMMSS hours minutes seconds) \<subseteq> set ''0123456789'' \<and>
           (live_cells g = [] \<longrightarrow> serialize hours minutes seconds g = Inr (HHMMSS hours minutes seconds))"
proof -
  from assms(4) obtain segments
    where col: "collect (map serialize_cell (live_cells g)) = Inr segments"
      and segs: "list_all2 is_segment_of segments (live_cells g)"
    using collect_serialize_cells [of "live_cells g"] grid_inv_live_cells [of g] by blast
  have date: "join [] [slice_last2 (''0'' @ Number_toString (int hours)),
                       slice_last2 (''0'' @ Number_toString (int minutes)),
                       slice_last2 (''0'' @ Number_toString (int seconds))] =
              HHMMSS hours minutes seconds"
    using assms(1-3) by (simp add: slice_last2_pad2 HHMMSS_def)
  have facts: "\<forall>seg \<in> set segments. seg \<noteq> [] \<and> CHR ''|'' \<notin> set seg"
  proof
    fix seg assume "seg \<in> set segments"
    with segs obtain cell where "is_segment_of seg cell"
      by (auto simp: in_set_conv_nth list_all2_conv_all_nth)
    then show "seg \<noteq> [] \<and> CHR ''|'' \<notin> set seg"
      by (rule is_segment_of_facts)
  qed
  have unf: "serialize hours minutes seconds g =
             Inr (if length (join ''|'' segments) > 0
                  then join ''|'' [HHMMSS hours minutes seconds, join ''|'' segments]
                  else HHMMSS hours minutes seconds)"
    unfolding serialize_def Let_def date using col by (simp add: live_cells_def)
  have out: "serialize hours minutes seconds g =
             Inr (HHMMSS hours minutes seconds @ concat (map (\<lambda>seg. ''|'' @ seg) segments))"
  proof (cases segments)
    case Nil
    then show ?thesis
      unfolding unf by simp
  next
    case (Cons seg rest)
    with facts have "seg \<noteq> []" by simp
    with Cons show ?thesis
      unfolding unf by (simp add: join_Cons del: join.simps)
  qed
  have len: "length segments = length (live_cells g)"
    using segs by (rule list_all2_lengthD)
  have "length (HHMMSS hours minutes seconds) = 6"
    by (simp add: HHMMSS_def pad2_def)
  moreover have "set (HHMMSS hours minutes seconds) \<subseteq> set ''0123456789''"
    using assms(1-3) digit_chars_pad2 [of hours] digit_chars_pad2 [of minutes] digit_chars_pad2 [of seconds]
    unfolding HHMMSS_def by (auto simp del: set_simps)
  moreover have "live_cells g = [] \<longrightarrow> serialize hours minutes seconds g = Inr (HHMMSS hours minutes seconds)"
    using out len by auto
  ultimately show ?thesis
    using out segs len facts by blast
qed

lemma grid_inv_blinker_grid: "grid_inv blinker_grid"
  by (simp add: grid_inv_def blinker_grid_def live_cell_def in_bounds_def cell_inv_def color_ok_def key_eval)

theorem serialize_format_witness:
  "9 < (24 :: nat) \<and> 5 < (60 :: nat) \<and> 30 < (60 :: nat) \<and> grid_inv blinker_grid \<and>
   serialize 9 5 30 blinker_grid = Inr ''090530|0,1,255,0,0|1,1,0,255,0|2,1,0,0,255'' \<and>
   (\<exists>segments.
      serialize 9 5 30 blinker_grid = Inr (HHMMSS 9 5 30 @ concat (map (\<lambda>seg. ''|'' @ seg) segments)) \<and>
      length segments = length (live_cells blinker_grid))"
proof -
  have "serialize 9 5 30 blinker_grid = Inr ''090530|0,1,255,0,0|1,1,0,255,0|2,1,0,0,255''"
    by code_simp
  moreover have "\<exists>segments.
      serialize 9 5 30 blinker_grid = Inr (HHMMSS 9 5 30 @ concat (map (\<lambda>seg. ''|'' @ seg) segments)) \<and>
      length segments = length (live_cells blinker_grid)"
    using serialize_format [of 9 5 30 blinker_grid] grid_inv_blinker_grid by auto
  ultimately show ?thesis
    using grid_inv_blinker_grid by simp
qed

section \<open>The generation transition terminates\<close>

lemma finite_in_bounds: "finite {c. in_bounds g c}"
proof -
  have "{c. in_bounds g c} \<subseteq> (\<lambda>(a, b). \<lparr>getX = a, getY = b\<rparr>) ` ({0..getMaxX g} \<times> {0..getMaxY g})"
  proof
    fix c assume "c \<in> {c. in_bounds g c}"
    then have "(getX c, getY c) \<in> {0..getMaxX g} \<times> {0..getMaxY g}"
      by (simp add: in_bounds_def)
    moreover have "c = (\<lambda>(a, b). \<lparr>getX = a, getY = b\<rparr>) (getX c, getY c)"
      by simp
    ultimately show "c \<in> (\<lambda>(a, b). \<lparr>getX = a, getY = b\<rparr>) ` ({0..getMaxX g} \<times> {0..getMaxY g})"
      by (rule rev_image_eqI)
  qed
  then show ?thesis
    by (rule finite_subset) simp
qed

lemma in_bounds_nbr_coords: "d \<in> set (nbr_coords g c) \<Longrightarrow> in_bounds g d"
  by (simp add: nbr_coords_def)

lemma neighbors_eq:
  "neighbors cell g =
     Inr (map Coordinates_toString (nbr_coords g (getCoordinates cell)),
          fold materialize (nbr_coords g (getCoordinates cell)) g)"
proof -
  have "(\<lambda>coordinates. let x = getX coordinates; y = getY coordinates
                        in x \<ge> 0 \<and> x \<le> getMaxX g \<and> y \<ge> 0 \<and> y \<le> getMaxY g) = in_bounds g"
    by (simp add: fun_eq_iff in_bounds_def Let_def)
  then have "neighbors cell g = getCells (nbr_coords g (getCoordinates cell)) g"
    by (simp add: neighbors_def nbr_coords_def)
  then show ?thesis
    by (simp add: getCells_eq in_bounds_nbr_coords)
qed

lemma finite_unexamined: "finite (unexamined s)"
  by (simp add: unexamined_def finite_in_bounds)

lemma tick_step_skip:
  "last (cellsToCheck s) \<in> cellsChecked s \<Longrightarrow>
   tick_step blend s = Inr (s\<lparr>cellsToCheck := butlast (cellsToCheck s)\<rparr>)"
  by (simp add: tick_step_def Let_def)

lemma tick_step_visit:
  assumes "last (cellsToCheck s) \<notin> cellsChecked s" and "tick_step blend s = Inr s'"
  shows "cellsChecked s' = insert (last (cellsToCheck s)) (cellsChecked s)"
    and "in_bounds (the_grid s') = in_bounds (the_grid s)"
    and "set (cellsToCheck s') \<subseteq>
           set (butlast (cellsToCheck s)) \<union> Coordinates_toString ` {c. in_bounds (the_grid s) c}"
  using assms
  by (auto simp: tick_step_def Let_def neighbors_eq in_bounds_nbr_coords
           split: sum.splits if_splits prod.splits)

lemma tick_step_decreases:
  assumes "cellsToCheck s \<noteq> []" and "tick_step blend s = Inr s'"
  shows "card (unexamined s') < card (unexamined s) \<or>
         card (unexamined s') = card (unexamined s) \<and> length (cellsToCheck s') < length (cellsToCheck s)"
proof (cases "last (cellsToCheck s) \<in> cellsChecked s")
  case True
  with assms(2) have s': "s' = s\<lparr>cellsToCheck := butlast (cellsToCheck s)\<rparr>"
    by (simp add: tick_step_skip)
  have "set (cellsToCheck s) = insert (last (cellsToCheck s)) (set (butlast (cellsToCheck s)))"
    using assms(1) by (metis append_butlast_last_id list.simps(15) rotate1.simps(2) set_rotate1)
  with True have "unexamined s' = unexamined s"
    by (auto simp: unexamined_def s')
  moreover have "length (cellsToCheck s') < length (cellsToCheck s)"
    using assms(1) by (simp add: s')
  ultimately show ?thesis by simp
next
  case False
  note v = tick_step_visit [OF False assms(2)]
  have mem: "last (cellsToCheck s) \<in> unexamined s"
    using assms(1) False by (simp add: unexamined_def)
  have "set (butlast (cellsToCheck s)) \<subseteq> set (cellsToCheck s)"
    by (auto dest: in_set_butlastD)
  with v have "unexamined s' \<subseteq> unexamined s - {last (cellsToCheck s)}"
    by (auto simp: unexamined_def)
  with mem have "unexamined s' \<subset> unexamined s"
    by auto
  then have "card (unexamined s') < card (unexamined s)"
    by (rule psubset_card_mono [OF finite_unexamined])
  then show ?thesis by simp
qed

termination tick_loop
proof (relation "measures [\<lambda>(blend, s). card (unexamined s), \<lambda>(blend, s). length (cellsToCheck s)]")
  show "wf (measures [\<lambda>(blend, s). card (unexamined s), \<lambda>(blend :: blend, s). length (cellsToCheck s)])"
    by simp
next
  fix blend :: blend and s s'
  assume "0 < length (cellsToCheck s)" and "tick_step blend s = Inr s'"
  then show "((blend, s'), (blend, s)) \<in>
      measures [\<lambda>(blend, s). card (unexamined s), \<lambda>(blend, s). length (cellsToCheck s)]"
    using tick_step_decreases [of s blend s'] by auto
qed

section \<open>The grid invariant\<close>

lemma grid_inv_deref:
  assumes "grid_inv g" and "deref g r = Some cell"
  shows "r = Coordinates_toString (getCoordinates cell)" and "in_bounds g (getCoordinates cell)"
    and "cell_inv cell"
proof -
  from assms(2) have "(r, cell) \<in> set (grid g)"
    by (simp add: deref_def map_of_SomeD)
  with assms(1) show "r = Coordinates_toString (getCoordinates cell)"
    "in_bounds g (getCoordinates cell)" "cell_inv cell"
    by (auto simp: grid_inv_def)
qed

lemma grid_inv_deref_key:
  "grid_inv g \<Longrightarrow> deref g (Coordinates_toString c) = Some cell \<Longrightarrow> getCoordinates cell = c"
  using grid_inv_deref(1) [of g "Coordinates_toString c" cell] by simp

lemma cellAt_coordinates [simp]: "grid_inv g \<Longrightarrow> getCoordinates (cellAt g c) = c"
  by (auto simp: cellAt_def new_Cell_def grid_inv_deref_key split: option.splits)

lemma cellAt_cell_inv: "grid_inv g \<Longrightarrow> cell_inv (cellAt g c)"
  by (auto simp: cellAt_def new_Cell_cell_inv grid_inv_deref(3) split: option.splits)

lemma cellAt_alive_in_bounds: "grid_inv g \<Longrightarrow> isAlive (cellAt g c) \<Longrightarrow> in_bounds g c"
  using grid_inv_deref(2) [of g "Coordinates_toString c"]
  by (auto simp: cellAt_def new_Cell_def grid_inv_deref_key split: option.splits)

lemma deref_cellAt: "deref g (Coordinates_toString c) = Some cell \<Longrightarrow> cellAt g c = cell"
  by (simp add: cellAt_def)

lemma cellAt_write_cell [simp]:
  "cellAt (write_cell (Coordinates_toString c) cell g) d = (if d = c then cell else cellAt g d)"
  by (simp add: cellAt_def)

lemma set_update_subset: "set (AList.update k v al) \<subseteq> insert (k, v) (set al)"
  by (induction al) auto

lemma grid_inv_write_cell:
  assumes "grid_inv g" and "getCoordinates cell = c" and "in_bounds g c" and "cell_inv cell"
  shows "grid_inv (write_cell (Coordinates_toString c) cell g)"
proof -
  have "distinct (map fst (AList.update (Coordinates_toString c) cell (grid g)))"
    using assms(1) by (simp add: grid_inv_def distinct_update)
  moreover have "set (AList.update (Coordinates_toString c) cell (grid g)) \<subseteq>
                 insert (Coordinates_toString c, cell) (set (grid g))"
    by (rule set_update_subset)
  ultimately show ?thesis
    using assms by (auto simp: grid_inv_def write_cell_def in_bounds_def)
qed

lemma grid_inv_materialize: "grid_inv g \<Longrightarrow> in_bounds g c \<Longrightarrow> grid_inv (materialize c g)"
  by (auto simp: materialize_def new_Cell_def new_Cell_cell_inv [unfolded new_Cell_def]
           intro!: grid_inv_write_cell split: option.splits)

lemma grid_inv_fold_materialize:
  "grid_inv g \<Longrightarrow> \<forall>c \<in> set cs. in_bounds g c \<Longrightarrow> grid_inv (fold materialize cs g)"
  by (induction cs arbitrary: g) (simp_all add: grid_inv_materialize)

lemma deref_materialize_present: "deref (materialize c g) (Coordinates_toString c) \<noteq> None"
  by (simp add: deref_materialize)

lemma deref_fold_materialize_present:
  "d \<in> set cs \<Longrightarrow> deref (fold materialize cs g) (Coordinates_toString d) \<noteq> None"
proof (induction cs arbitrary: g)
  case Nil
  then show ?case by simp
next
  case (Cons c cs)
  show ?case
  proof (cases "d = c")
    case True
    obtain cell where "deref (materialize c g) (Coordinates_toString c) = Some cell"
      using deref_materialize_present [of c g] by auto
    then show ?thesis
      using True by (simp add: deref_fold_materialize_Some)
  next
    case False
    with Cons show ?thesis by simp
  qed
qed

lemma deref_fold_materialize_keep:
  "deref g r \<noteq> None \<Longrightarrow> deref (fold materialize cs g) r \<noteq> None"
  using deref_fold_materialize_Some [of g r] by auto

lemma read_cell_cellAt: "deref g (Coordinates_toString c) \<noteq> None \<Longrightarrow> read_cell g (Coordinates_toString c) = Inr (cellAt g c)"
  by (auto simp: read_cell_def cellAt_def)

lemma collect_read_cells:
  "\<forall>d \<in> set ds. deref g (Coordinates_toString d) \<noteq> None \<Longrightarrow>
   collect (map (read_cell g) (map Coordinates_toString ds)) = Inr (map (cellAt g) ds)"
  by (induction ds) (simp_all add: read_cell_cellAt)

section \<open>One iteration of the loop\<close>

lemma tick_step_visit_eq:
  assumes inv: "grid_inv (the_grid s)"
    and r: "last (cellsToCheck s) = Coordinates_toString c"
    and nc: "Coordinates_toString c \<notin> cellsChecked s"
    and present: "deref (the_grid s) (Coordinates_toString c) \<noteq> None"
  shows "tick_step blend s =
     (let g = the_grid s; cell = cellAt g c; g1 = fold materialize (nbr_coords g c) g;
          r = Coordinates_toString c; rest = butlast (cellsToCheck s);
          nbrs = map Coordinates_toString (nbr_coords g c)
      in if isAlive cell \<and> (live_count g c < 2 \<or> live_count g c > 3)
         then Inr \<lparr>the_grid = g1, cellsChecked = insert r (cellsChecked s),
                   cellsToSwitch = cellsToSwitch s @ [r], cellsToCheck = rest @ nbrs\<rparr>
         else if \<not> isAlive cell \<and> live_count g c = 3
         then (case average_color blend (liveNeighbors_at g c) of
                 Inl e \<Rightarrow> Inl e
               | Inr newColor \<Rightarrow>
                   (case setColor newColor cell of
                      Inl e \<Rightarrow> Inl e
                    | Inr cell' \<Rightarrow>
                        Inr \<lparr>the_grid = write_cell r cell' g1, cellsChecked = insert r (cellsChecked s),
                             cellsToSwitch = cellsToSwitch s @ [r], cellsToCheck = rest\<rparr>))
         else Inr \<lparr>the_grid = g1, cellsChecked = insert r (cellsChecked s),
                   cellsToSwitch = cellsToSwitch s,
                   cellsToCheck = (if isAlive cell then rest @ nbrs else rest)\<rparr>)"
proof -
  let ?g = "the_grid s"
  let ?ds = "nbr_coords ?g c"
  let ?g1 = "fold materialize ?ds ?g"
  have rd: "read_cell ?g (Coordinates_toString c) = Inr (cellAt ?g c)"
    using present by (rule read_cell_cellAt)
  have co: "getCoordinates (cellAt ?g c) = c"
    using inv by simp
  have nb: "neighbors (cellAt ?g c) ?g = Inr (map Coordinates_toString ?ds, ?g1)"
    by (simp add: neighbors_eq co)
  have "\<forall>d \<in> set ?ds. deref ?g1 (Coordinates_toString d) \<noteq> None"
    by (simp add: deref_fold_materialize_present)
  then have "collect (map (read_cell ?g1) (map Coordinates_toString ?ds)) = Inr (map (cellAt ?g1) ?ds)"
    by (rule collect_read_cells)
  then have cl: "collect (map (read_cell ?g1) (map Coordinates_toString ?ds)) = Inr (map (cellAt ?g) ?ds)"
    by simp
  have lv: "filter isAlive (map (cellAt ?g) ?ds) = liveNeighbors_at ?g c"
    by (simp add: liveNeighbors_at_def)
  show ?thesis
    unfolding tick_step_def Let_def r
    by (simp only: nc if_False rd sum.case nb prod.case cl lv live_count_def [symmetric])
       (simp add: live_count_def split: sum.splits)
qed


lemma deref_write_cell_keep: "deref g k \<noteq> None \<Longrightarrow> deref (write_cell r cell g) k \<noteq> None"
  by simp

lemma tick_step_visit_result:
  assumes inv: "grid_inv (the_grid s)"
    and r: "last (cellsToCheck s) = Coordinates_toString c"
    and nc: "Coordinates_toString c \<notin> cellsChecked s"
    and present: "deref (the_grid s) (Coordinates_toString c) \<noteq> None"
    and inb: "in_bounds (the_grid s) c"
    and step: "tick_step blend s = Inr s'"
  shows "cellsChecked s' = insert (Coordinates_toString c) (cellsChecked s)"
    and "cellsToSwitch s' =
           (if flips (the_grid s) c then cellsToSwitch s @ [Coordinates_toString c] else cellsToSwitch s)"
    and "cellsToCheck s' =
           (if isAlive (cellAt (the_grid s) c)
            then butlast (cellsToCheck s) @ map Coordinates_toString (nbr_coords (the_grid s) c)
            else butlast (cellsToCheck s))"
    and "grid_inv (the_grid s')"
    and "getMaxX (the_grid s') = getMaxX (the_grid s)"
    and "getMaxY (the_grid s') = getMaxY (the_grid s)"
    and "cellAt (the_grid s') d = (if d = c then examined blend (the_grid s) c else cellAt (the_grid s) d)"
    and "deref (the_grid s) k \<noteq> None \<Longrightarrow> deref (the_grid s') k \<noteq> None"
    and "d \<in> set (nbr_coords (the_grid s) c) \<Longrightarrow> deref (the_grid s') (Coordinates_toString d) \<noteq> None"
proof -
  let ?g = "the_grid s"
  let ?ds = "nbr_coords ?g c"
  let ?g1 = "fold materialize ?ds ?g"
  let ?r = "Coordinates_toString c"
  note eq = tick_step_visit_eq [OF inv r nc present, of blend, unfolded Let_def]
  have g1_inv: "grid_inv ?g1"
    using inv by (rule grid_inv_fold_materialize) (simp add: in_bounds_nbr_coords)
  have g1_present: "deref ?g1 (Coordinates_toString d) \<noteq> None" if "d \<in> set ?ds" for d
    using that by (rule deref_fold_materialize_present)
  have g1_keep: "deref ?g1 k \<noteq> None" if "deref ?g k \<noteq> None" for k
    using that by (rule deref_fold_materialize_keep)
  consider
    (die) "isAlive (cellAt ?g c)" "live_count ?g c < 2 \<or> live_count ?g c > 3"
  | (born) "\<not> isAlive (cellAt ?g c)" "live_count ?g c = 3"
  | (stay) "\<not> (isAlive (cellAt ?g c) \<and> (live_count ?g c < 2 \<or> live_count ?g c > 3))"
           "\<not> (\<not> isAlive (cellAt ?g c) \<and> live_count ?g c = 3)"
    by blast
  then have all: "cellsChecked s' = insert ?r (cellsChecked s) \<and>
      cellsToSwitch s' = (if flips ?g c then cellsToSwitch s @ [?r] else cellsToSwitch s) \<and>
      cellsToCheck s' = (if isAlive (cellAt ?g c) then butlast (cellsToCheck s) @ map Coordinates_toString ?ds
                         else butlast (cellsToCheck s)) \<and>
      grid_inv (the_grid s') \<and> getMaxX (the_grid s') = getMaxX ?g \<and> getMaxY (the_grid s') = getMaxY ?g \<and>
      (\<forall>d. cellAt (the_grid s') d = (if d = c then examined blend ?g c else cellAt ?g d)) \<and>
      (\<forall>k. deref ?g k \<noteq> None \<longrightarrow> deref (the_grid s') k \<noteq> None) \<and>
      (\<forall>d \<in> set ?ds. deref (the_grid s') (Coordinates_toString d) \<noteq> None)"
  proof cases
    case die
    with eq step have s': "s' = \<lparr>the_grid = ?g1, cellsChecked = insert ?r (cellsChecked s),
        cellsToSwitch = cellsToSwitch s @ [?r],
        cellsToCheck = butlast (cellsToCheck s) @ map Coordinates_toString ?ds\<rparr>"
      by simp
    from die have "examined blend ?g c = cellAt ?g c" "flips ?g c"
      by (simp_all add: examined_def flips_def)
    then show ?thesis
      using die g1_inv g1_present g1_keep by (simp add: s')
  next
    case born
    with eq step obtain newColor cell' where
      av: "average_color blend (liveNeighbors_at ?g c) = Inr newColor"
      and sc: "setColor newColor (cellAt ?g c) = Inr cell'"
      and s': "s' = \<lparr>the_grid = write_cell ?r cell' ?g1, cellsChecked = insert ?r (cellsChecked s),
        cellsToSwitch = cellsToSwitch s @ [?r], cellsToCheck = butlast (cellsToCheck s)\<rparr>"
      by (auto split: sum.splits)
    from sc have cell': "cell' = (cellAt ?g c)\<lparr>getColor := Some (map integer_value newColor)\<rparr>"
      by (rule setColor_Inr(1))
    from born av have ex: "examined blend ?g c = cell'" and fl: "flips ?g c"
      by (simp_all add: examined_def flips_def cell')
    have "grid_inv (write_cell ?r cell' ?g1)"
      using g1_inv
    proof (rule grid_inv_write_cell)
      show "getCoordinates cell' = c" using inv by (simp add: cell')
      show "in_bounds ?g1 c" using inb by simp
      show "cell_inv cell'" using sc by (rule setColor_cell_inv)
    qed
    then show ?thesis
      using born ex fl g1_present g1_keep by (simp add: s')
  next
    case stay
    with eq step have s': "s' = \<lparr>the_grid = ?g1, cellsChecked = insert ?r (cellsChecked s),
        cellsToSwitch = cellsToSwitch s,
        cellsToCheck = (if isAlive (cellAt ?g c) then butlast (cellsToCheck s) @ map Coordinates_toString ?ds
                        else butlast (cellsToCheck s))\<rparr>"
      by simp
    from stay have "examined blend ?g c = cellAt ?g c" "\<not> flips ?g c"
      by (auto simp: examined_def flips_def)
    then show ?thesis
      using g1_inv g1_present g1_keep by (simp add: s')
  qed
  from all show "cellsChecked s' = insert ?r (cellsChecked s)" by blast
  from all show "cellsToSwitch s' = (if flips ?g c then cellsToSwitch s @ [?r] else cellsToSwitch s)" by blast
  from all show "cellsToCheck s' = (if isAlive (cellAt ?g c) then butlast (cellsToCheck s) @ map Coordinates_toString ?ds
                         else butlast (cellsToCheck s))" by blast
  from all show "grid_inv (the_grid s')" by blast
  from all show "getMaxX (the_grid s') = getMaxX ?g" by blast
  from all show "getMaxY (the_grid s') = getMaxY ?g" by blast
  from all show "cellAt (the_grid s') d = (if d = c then examined blend ?g c else cellAt ?g d)" by blast
  from all show "deref ?g k \<noteq> None \<Longrightarrow> deref (the_grid s') k \<noteq> None" by blast
  from all show "d \<in> set ?ds \<Longrightarrow> deref (the_grid s') (Coordinates_toString d) \<noteq> None" by blast
qed

section \<open>The loop invariant\<close>

lemma isAlive_examined [simp]: "isAlive (examined blend g c) = isAlive (cellAt g c)"
  by (simp add: examined_def split: sum.splits)

lemma examined_alive: "isAlive (cellAt g c) \<Longrightarrow> examined blend g c = cellAt g c"
  by (simp add: examined_def)

lemma filter_map_agree:
  assumes "\<And>x. x \<in> set xs \<Longrightarrow> P (f x) = P (h x)" and "\<And>x. x \<in> set xs \<Longrightarrow> P (h x) \<Longrightarrow> f x = h x"
  shows "filter P (map f xs) = filter P (map h xs)"
  using assms by (induction xs) auto

lemma tick_inv_alive: "tick_inv blend g0 s \<Longrightarrow> isAlive (cellAt (the_grid s) c) = isAlive (cellAt g0 c)"
  by (simp add: tick_inv_def)

lemma tick_inv_live_cell: "tick_inv blend g0 s \<Longrightarrow> isAlive (cellAt g0 c) \<Longrightarrow> cellAt (the_grid s) c = cellAt g0 c"
  by (simp add: tick_inv_def examined_alive)

lemma tick_inv_unchecked:
  "tick_inv blend g0 s \<Longrightarrow> Coordinates_toString c \<notin> cellsChecked s \<Longrightarrow> cellAt (the_grid s) c = cellAt g0 c"
  by (simp add: tick_inv_def)

lemma tick_inv_in_bounds: "tick_inv blend g0 s \<Longrightarrow> in_bounds (the_grid s) = in_bounds g0"
  by (simp add: tick_inv_def in_bounds_def fun_eq_iff)

lemma tick_inv_nbr_coords: "tick_inv blend g0 s \<Longrightarrow> nbr_coords (the_grid s) c = nbr_coords g0 c"
  by (simp add: nbr_coords_def tick_inv_in_bounds)

lemma tick_inv_liveNeighbors:
  assumes "tick_inv blend g0 s"
  shows "liveNeighbors_at (the_grid s) c = liveNeighbors_at g0 c"
  unfolding liveNeighbors_at_def tick_inv_nbr_coords [OF assms]
  by (rule filter_map_agree) (simp_all add: tick_inv_alive [OF assms] tick_inv_live_cell [OF assms])

lemma tick_inv_live_count: "tick_inv blend g0 s \<Longrightarrow> live_count (the_grid s) c = live_count g0 c"
  by (simp add: live_count_def tick_inv_liveNeighbors)

lemma tick_inv_flips: "tick_inv blend g0 s \<Longrightarrow> flips (the_grid s) c = flips g0 c"
  by (simp add: flips_def tick_inv_live_count tick_inv_alive)

lemma tick_inv_examined:
  "tick_inv blend g0 s \<Longrightarrow> Coordinates_toString c \<notin> cellsChecked s \<Longrightarrow>
   examined blend (the_grid s) c = examined blend g0 c"
proof -
  assume inv: "tick_inv blend g0 s" and "Coordinates_toString c \<notin> cellsChecked s"
  then have "cellAt (the_grid s) c = cellAt g0 c"
    by (rule tick_inv_unchecked)
  then show ?thesis
    unfolding examined_def tick_inv_live_count [OF inv] tick_inv_liveNeighbors [OF inv]
    by (simp split: sum.splits)
qed

lemma set_butlast_last: "xs \<noteq> [] \<Longrightarrow> set xs = insert (last xs) (set (butlast xs))"
  by (induction xs) auto

lemma tick_step_inv_skip:
  assumes inv: "tick_inv blend g0 s" and ne: "cellsToCheck s \<noteq> []"
    and chk: "last (cellsToCheck s) \<in> cellsChecked s"
  shows "tick_inv blend g0 (s\<lparr>cellsToCheck := butlast (cellsToCheck s)\<rparr>)"
proof -
  have sub: "set (butlast (cellsToCheck s)) \<subseteq> set (cellsToCheck s)"
    by (auto dest: in_set_butlastD)
  have cov: "cellsChecked s \<union> set (cellsToCheck s) = cellsChecked s \<union> set (butlast (cellsToCheck s))"
    using set_butlast_last [OF ne] chk by auto
  show ?thesis
    using inv sub unfolding tick_inv_def cov by (simp add: subset_iff) blast
qed


lemma tick_step_inv_visit:
  assumes inv: "tick_inv blend g0 s" and ne: "cellsToCheck s \<noteq> []"
    and nchk: "last (cellsToCheck s) \<notin> cellsChecked s"
    and step: "tick_step blend s = Inr s'"
  shows "tick_inv blend g0 s'"
proof -
  let ?g = "the_grid s"
  note u = inv [unfolded tick_inv_def]
  have old_refs: "\<forall>r \<in> set (cellsToCheck s) \<union> cellsChecked s.
        \<exists>c. r = Coordinates_toString c \<and> in_bounds g0 c \<and> deref ?g r \<noteq> None"
    using u by (elim conjE)
  have old_distinct: "distinct (cellsToSwitch s)"
    using u by (elim conjE)
  have old_sub: "set (cellsToSwitch s) \<subseteq> cellsChecked s"
    using u by (elim conjE)
  have old_dec: "\<forall>c. Coordinates_toString c \<in> cellsChecked s \<longrightarrow>
        (Coordinates_toString c \<in> set (cellsToSwitch s) \<longleftrightarrow> flips g0 c)"
    using u by (elim conjE)
  have old_cells: "\<forall>c. cellAt ?g c =
        (if Coordinates_toString c \<in> cellsChecked s then examined blend g0 c else cellAt g0 c)"
    using u by (elim conjE)
  have old_live: "\<forall>c. isAlive (cellAt g0 c) \<longrightarrow>
        Coordinates_toString c \<in> cellsChecked s \<union> set (cellsToCheck s)"
    using u by (elim conjE)
  have old_nbrs: "\<forall>c d. Coordinates_toString c \<in> cellsChecked s \<and> isAlive (cellAt g0 c) \<and>
        d \<in> set (nbr_coords g0 c) \<longrightarrow>
        Coordinates_toString d \<in> cellsChecked s \<union> set (cellsToCheck s)"
    using u by (elim conjE)
  have last_in: "last (cellsToCheck s) \<in> set (cellsToCheck s) \<union> cellsChecked s"
    using ne by simp
  from old_refs [rule_format, OF last_in]
  obtain c where r: "last (cellsToCheck s) = Coordinates_toString c"
    and inb0: "in_bounds g0 c" and present0: "deref ?g (last (cellsToCheck s)) \<noteq> None"
    by blast
  from present0 r have present: "deref ?g (Coordinates_toString c) \<noteq> None" by simp
  let ?r = "Coordinates_toString c"
  from nchk r have nc: "?r \<notin> cellsChecked s" by simp
  have ginv: "grid_inv ?g" using inv by (simp add: tick_inv_def)
  have inb: "in_bounds ?g c" using inb0 by (simp add: tick_inv_in_bounds [OF inv])
  note res = tick_step_visit_result [OF ginv r nc present inb step]
  note nb = tick_inv_nbr_coords [OF inv]
  have checked': "cellsChecked s' = insert ?r (cellsChecked s)" by (rule res(1))
  have switch': "cellsToSwitch s' = (if flips g0 c then cellsToSwitch s @ [?r] else cellsToSwitch s)"
    using res(2) by (simp add: tick_inv_flips [OF inv])
  have check': "cellsToCheck s' =
      (if isAlive (cellAt g0 c) then butlast (cellsToCheck s) @ map Coordinates_toString (nbr_coords g0 c)
       else butlast (cellsToCheck s))"
    using res(3) by (simp add: tick_inv_alive [OF inv] nb)
  have cells': "cellAt (the_grid s') d = (if d = c then examined blend g0 c else cellAt ?g d)" for d
    using res(7) [of d] by (simp add: tick_inv_examined [OF inv nc])
  have r_fresh: "?r \<notin> set (cellsToSwitch s)"
    using old_sub nc by blast
  have cover: "cellsChecked s \<union> set (cellsToCheck s) \<subseteq> cellsChecked s' \<union> set (cellsToCheck s')"
    using set_butlast_last [OF ne] r by (auto simp: checked' check')
  have refs': "\<forall>r \<in> set (cellsToCheck s') \<union> cellsChecked s'.
        \<exists>c. r = Coordinates_toString c \<and> in_bounds g0 c \<and> deref (the_grid s') r \<noteq> None"
  proof
    fix q assume "q \<in> set (cellsToCheck s') \<union> cellsChecked s'"
    then consider "q \<in> set (butlast (cellsToCheck s)) \<union> cellsChecked s" | "q = ?r"
      | "q \<in> Coordinates_toString ` set (nbr_coords g0 c)"
      by (auto simp: checked' check' split: if_splits)
    then show "\<exists>c. q = Coordinates_toString c \<and> in_bounds g0 c \<and> deref (the_grid s') q \<noteq> None"
    proof cases
      case 1
      then have "q \<in> set (cellsToCheck s) \<union> cellsChecked s"
        by (auto dest: in_set_butlastD)
      with old_refs obtain c' where "q = Coordinates_toString c'" "in_bounds g0 c'" "deref ?g q \<noteq> None"
        by blast
      then show ?thesis using res(8) by blast
    next
      case 2
      with inb0 present res(8) show ?thesis by blast
    next
      case 3
      then obtain d where d: "d \<in> set (nbr_coords g0 c)" "q = Coordinates_toString d" by blast
      then have "in_bounds g0 d" by (simp add: in_bounds_nbr_coords)
      moreover have "deref (the_grid s') q \<noteq> None"
        using res(9) [of d] d by (simp add: nb)
      ultimately show ?thesis using d by blast
    qed
  qed
  show ?thesis
    unfolding tick_inv_def
  proof (intro conjI)
    show "grid_inv (the_grid s')" by (rule res(4))
    show "getMaxX (the_grid s') = getMaxX g0" using res(5) inv by (simp add: tick_inv_def)
    show "getMaxY (the_grid s') = getMaxY g0" using res(6) inv by (simp add: tick_inv_def)
    show "\<forall>r \<in> set (cellsToCheck s') \<union> cellsChecked s'.
        \<exists>c. r = Coordinates_toString c \<and> in_bounds g0 c \<and> deref (the_grid s') r \<noteq> None"
      by (rule refs')
    show "distinct (cellsToSwitch s')"
      using old_distinct r_fresh by (simp add: switch')
    show "set (cellsToSwitch s') \<subseteq> cellsChecked s'"
      using old_sub by (auto simp: switch' checked')
    show "\<forall>c. Coordinates_toString c \<in> cellsChecked s' \<longrightarrow>
        (Coordinates_toString c \<in> set (cellsToSwitch s') \<longleftrightarrow> flips g0 c)"
      using old_dec r_fresh by (auto simp: switch' checked')
    show "\<forall>d. cellAt (the_grid s') d =
        (if Coordinates_toString d \<in> cellsChecked s' then examined blend g0 d else cellAt g0 d)"
      using old_cells by (simp add: cells' checked')
    show "\<forall>c. isAlive (cellAt g0 c) \<longrightarrow>
        Coordinates_toString c \<in> cellsChecked s' \<union> set (cellsToCheck s')"
      using old_live cover by blast
    show "\<forall>c d. Coordinates_toString c \<in> cellsChecked s' \<and> isAlive (cellAt g0 c) \<and>
        d \<in> set (nbr_coords g0 c) \<longrightarrow>
        Coordinates_toString d \<in> cellsChecked s' \<union> set (cellsToCheck s')"
    proof (intro allI impI)
      fix c' d
      assume a: "Coordinates_toString c' \<in> cellsChecked s' \<and> isAlive (cellAt g0 c') \<and>
        d \<in> set (nbr_coords g0 c')"
      show "Coordinates_toString d \<in> cellsChecked s' \<union> set (cellsToCheck s')"
      proof (cases "c' = c")
        case True
        with a show ?thesis by (simp add: check')
      next
        case False
        with a have "Coordinates_toString c' \<in> cellsChecked s" by (simp add: checked')
        with a old_nbrs have "Coordinates_toString d \<in> cellsChecked s \<union> set (cellsToCheck s)" by blast
        with cover show ?thesis by blast
      qed
    qed
  qed
qed

lemma tick_step_inv:
  assumes "tick_inv blend g0 s" and "cellsToCheck s \<noteq> []" and "tick_step blend s = Inr s'"
  shows "tick_inv blend g0 s'"
proof (cases "last (cellsToCheck s) \<in> cellsChecked s")
  case True
  with assms(3) have "s' = s\<lparr>cellsToCheck := butlast (cellsToCheck s)\<rparr>"
    by (simp add: tick_step_skip)
  with assms True show ?thesis
    by (simp add: tick_step_inv_skip)
next
  case False
  show ?thesis
    using assms(1,2) False assms(3) by (rule tick_step_inv_visit)
qed

declare tick_loop.simps [simp del]

lemma tick_loop_inv:
  "tick_inv blend g0 s \<Longrightarrow> tick_loop blend s = Inr s' \<Longrightarrow> tick_inv blend g0 s' \<and> cellsToCheck s' = []"
proof (induction blend s rule: tick_loop.induct)
  case (1 blend s)
  show ?case
  proof (cases "cellsToCheck s = []")
    case True
    with "1.prems" show ?thesis by (simp add: tick_loop.simps [of blend s])
  next
    case False
    with "1.prems"(2) obtain s1 where step: "tick_step blend s = Inr s1" and rest: "tick_loop blend s1 = Inr s'"
      by (auto simp: tick_loop.simps [of blend s] split: sum.splits)
    have "tick_inv blend g0 s1"
      using "1.prems"(1) False step by (rule tick_step_inv)
    with "1.IH" [of s1] False step rest show ?thesis by simp
  qed
qed

section \<open>Neighbourhoods\<close>

lemma mem_addOffsets:
  "d \<in> set (addOffsets c offsets) \<longleftrightarrow>
     \<bar>getX d - getX c\<bar> \<le> 1 \<and> \<bar>getY d - getY c\<bar> \<le> 1 \<and> d \<noteq> c"
proof
  assume "d \<in> set (addOffsets c offsets)"
  then obtain dx dy where off: "(dx, dy) \<in> set offsets"
    and d: "d = \<lparr>getX = getX c + dx, getY = getY c + dy\<rparr>"
    by (auto simp: addOffsets_def)
  from d have "getX d = getX c + dx" "getY d = getY c + dy"
    by simp_all
  moreover from off have "\<bar>dx\<bar> \<le> 1 \<and> \<bar>dy\<bar> \<le> 1 \<and> (dx \<noteq> 0 \<or> dy \<noteq> 0)"
    by (auto simp: offsets_def)
  ultimately show "\<bar>getX d - getX c\<bar> \<le> 1 \<and> \<bar>getY d - getY c\<bar> \<le> 1 \<and> d \<noteq> c"
    by auto
next
  assume a: "\<bar>getX d - getX c\<bar> \<le> 1 \<and> \<bar>getY d - getY c\<bar> \<le> 1 \<and> d \<noteq> c"
  then have "getX d - getX c \<in> {- 1, 0, 1}" "getY d - getY c \<in> {- 1, 0, 1}"
    by auto
  moreover from a have "\<not> (getX d - getX c = 0 \<and> getY d - getY c = 0)"
    by (auto intro: Coordinates.equality)
  ultimately have "(getX d - getX c, getY d - getY c) \<in> set offsets"
    by (auto simp: offsets_def)
  then have "\<lparr>getX = getX c + (getX d - getX c), getY = getY c + (getY d - getY c)\<rparr> \<in> set (addOffsets c offsets)"
    unfolding addOffsets_def set_map by (rule rev_image_eqI) simp
  moreover have "d = \<lparr>getX = getX d, getY = getY d\<rparr>"
    by simp
  ultimately show "d \<in> set (addOffsets c offsets)"
    by simp
qed

lemma nbr_coords_sym:
  "in_bounds g c \<Longrightarrow> d \<in> set (nbr_coords g c) \<Longrightarrow> c \<in> set (nbr_coords g d)"
  by (auto simp: nbr_coords_def mem_addOffsets)

lemma live_count_pos:
  "0 < live_count g c \<Longrightarrow> \<exists>d \<in> set (nbr_coords g c). isAlive (cellAt g d)"
proof -
  assume "0 < live_count g c"
  then have "liveNeighbors_at g c \<noteq> []"
    by (simp add: live_count_def)
  then obtain cell where "cell \<in> set (liveNeighbors_at g c)"
    by (cases "liveNeighbors_at g c") auto
  then show ?thesis
    by (auto simp: liveNeighbors_at_def)
qed

section \<open>Start of the loop and the final switch\<close>

lemma tick_eq: "tick blend g =
  (case tick_loop blend (tick_start g) of Inl e \<Rightarrow> Inl e | Inr s \<Rightarrow> switch_all (cellsToSwitch s) (the_grid s))"
  by (simp add: tick_def tick_start_def)

lemma tick_start_inv:
  assumes "grid_inv g"
  shows "tick_inv blend g (tick_start g)"
proof -
  have refs: "\<exists>c. r = Coordinates_toString c \<and> in_bounds g c \<and> deref g r \<noteq> None"
    if "r \<in> set (map fst (filter (\<lambda>(k, cell). isAlive cell) (grid g)))" for r
  proof -
    from that obtain cell where mem: "(r, cell) \<in> set (grid g)"
      by auto
    with assms have "r = Coordinates_toString (getCoordinates cell)" "in_bounds g (getCoordinates cell)"
      by (auto simp: grid_inv_def)
    moreover from mem have "r \<in> fst ` set (grid g)"
      by (rule rev_image_eqI) simp
    then have "deref g r \<noteq> None"
      by (simp add: deref_def map_of_eq_None_iff)
    ultimately show ?thesis by blast
  qed
  have live: "Coordinates_toString c \<in> set (map fst (filter (\<lambda>(k, cell). isAlive cell) (grid g)))"
    if "isAlive (cellAt g c)" for c
  proof -
    from that obtain cell where "deref g (Coordinates_toString c) = Some cell" "isAlive cell"
      by (auto simp: cellAt_def new_Cell_def split: option.splits)
    then have "(Coordinates_toString c, cell) \<in> set (filter (\<lambda>(k, cell). isAlive cell) (grid g))"
      by (simp add: deref_def map_of_SomeD)
    then show ?thesis
      unfolding set_map by (rule rev_image_eqI) simp
  qed
  show ?thesis
    unfolding tick_inv_def tick_start_def
    using assms refs live by simp
qed

lemma cell_inv_setDead [simp]: "cell_inv (setDead cell)"
  by (rule setDead_cell_inv)

lemma switch_all_result:
  assumes "grid_inv g" and "distinct rs"
    and "\<forall>r \<in> set rs. \<exists>c. r = Coordinates_toString c \<and> in_bounds g c \<and>
           (\<exists>cell. deref g r = Some cell \<and> (\<not> isAlive cell \<longrightarrow> getColor cell \<noteq> None))"
  shows "\<exists>g'. switch_all rs g = Inr g' \<and> grid_inv g' \<and>
           getMaxX g' = getMaxX g \<and> getMaxY g' = getMaxY g \<and>
           (\<forall>d. cellAt g' d =
              (if Coordinates_toString d \<in> set rs then switched (cellAt g d) else cellAt g d))"
  using assms
proof (induction rs arbitrary: g)
  case Nil
  then show ?case by simp
next
  case (Cons r rs)
  from Cons.prems(3) obtain c cell where r: "r = Coordinates_toString c" and inb: "in_bounds g c"
    and cell: "deref g r = Some cell" and col: "\<not> isAlive cell \<longrightarrow> getColor cell \<noteq> None"
    by auto
  have at: "cellAt g c = cell"
    using cell r by (simp add: deref_cellAt)
  have coords: "getCoordinates cell = c"
    using Cons.prems(1) cell r by (simp add: grid_inv_deref_key)
  have cinv: "cell_inv cell"
    using Cons.prems(1) cell by (rule grid_inv_deref(3))
  define cell' where "cell' = switched cell"
  have cinv': "cell_inv cell'" and coords': "getCoordinates cell' = c"
    using cinv coords col by (auto simp: cell'_def switched_def setDead_def cell_inv_def split: option.splits)
  define g1 where "g1 = write_cell r cell' g"
  have step: "switch_all (r # rs) g = switch_all rs g1"
    using cell col by (auto simp: read_cell_def g1_def cell'_def switched_def setAlive_def split: option.splits)
  have g1_inv: "grid_inv g1"
    unfolding g1_def r using Cons.prems(1) coords' inb cinv' by (rule grid_inv_write_cell)
  have notin: "r \<notin> set rs" and dist: "distinct rs"
    using Cons.prems(2) by simp_all
  have "\<forall>q \<in> set rs. \<exists>c. q = Coordinates_toString c \<and> in_bounds g1 c \<and>
           (\<exists>cell. deref g1 q = Some cell \<and> (\<not> isAlive cell \<longrightarrow> getColor cell \<noteq> None))"
  proof
    fix q assume q: "q \<in> set rs"
    with notin have "q \<noteq> r" by blast
    then have "deref g1 q = deref g q" by (simp add: g1_def)
    moreover have "in_bounds g1 = in_bounds g" by (simp add: g1_def)
    ultimately show "\<exists>c. q = Coordinates_toString c \<and> in_bounds g1 c \<and>
           (\<exists>cell. deref g1 q = Some cell \<and> (\<not> isAlive cell \<longrightarrow> getColor cell \<noteq> None))"
      using Cons.prems(3) q by simp
  qed
  from Cons.IH [OF g1_inv dist this] obtain g' where
    res: "switch_all rs g1 = Inr g'" "grid_inv g'" "getMaxX g' = getMaxX g1" "getMaxY g' = getMaxY g1"
    and view: "\<forall>d. cellAt g' d = (if Coordinates_toString d \<in> set rs then switched (cellAt g1 d) else cellAt g1 d)"
    by blast
  have g1_at: "cellAt g1 d = (if d = c then cell' else cellAt g d)" for d
    by (simp add: g1_def r)
  have "cellAt g' d = (if Coordinates_toString d \<in> set (r # rs) then switched (cellAt g d) else cellAt g d)" for d
    using view notin by (auto simp: g1_at r at cell'_def)
  with res step show ?case
    by (simp add: g1_def)
qed

section \<open>The transition completes\<close>

lemma live_neighbor_color:
  assumes "grid_inv g" and "cell \<in> set (liveNeighbors_at g c)"
  shows "\<exists>col. getColor cell = Some col \<and> color_ok col"
proof -
  from assms(2) obtain d where "cell = cellAt g d" "isAlive cell"
    by (auto simp: liveNeighbors_at_def)
  moreover have "cell_inv (cellAt g d)"
    using assms(1) by (rule cellAt_cell_inv)
  ultimately show ?thesis
    by (auto simp: cell_inv_def split: option.splits)
qed

lemma average_color_Inr:
  assumes "grid_inv g" and "live_count g c = 3"
  shows "\<exists>c0 c1 c2. average_color blend (liveNeighbors_at g c) = Inr (blend c0 c1 c2) \<and>
           color_ok c0 \<and> color_ok c1 \<and> color_ok c2"
proof -
  from assms(2) obtain n0 n1 n2 where l: "liveNeighbors_at g c = [n0, n1, n2]"
    by (auto simp: live_count_def length_Suc_conv numeral_3_eq_3)
  then have "n0 \<in> set (liveNeighbors_at g c)" "n1 \<in> set (liveNeighbors_at g c)"
    "n2 \<in> set (liveNeighbors_at g c)"
    by simp_all
  then obtain c0 c1 c2 where "getColor n0 = Some c0" "color_ok c0" "getColor n1 = Some c1" "color_ok c1"
    "getColor n2 = Some c2" "color_ok c2"
    using live_neighbor_color [OF assms(1)] by metis
  then show ?thesis
    by (auto simp: average_color_def l)
qed

lemma setColor_valid:
  "length newColor = 3 \<Longrightarrow> \<forall>v \<in> set newColor. channel_ok v \<Longrightarrow>
   setColor newColor cell = Inr (cell\<lparr>getColor := Some (map integer_value newColor)\<rparr>)"
  by (simp add: setColor_def)

lemma tick_step_ok:
  assumes inv: "tick_inv blend g0 s" and valid: "blend_valid blend" and ne: "cellsToCheck s \<noteq> []"
  shows "\<exists>s'. tick_step blend s = Inr s'"
proof (cases "last (cellsToCheck s) \<in> cellsChecked s")
  case True
  then show ?thesis by (simp add: tick_step_skip)
next
  case False
  let ?g = "the_grid s"
  have ginv: "grid_inv ?g" using inv by (simp add: tick_inv_def)
  have "\<forall>r \<in> set (cellsToCheck s) \<union> cellsChecked s.
        \<exists>c. r = Coordinates_toString c \<and> in_bounds g0 c \<and> deref ?g r \<noteq> None"
    using inv [unfolded tick_inv_def] by (elim conjE)
  moreover have "last (cellsToCheck s) \<in> set (cellsToCheck s) \<union> cellsChecked s"
    using ne by simp
  ultimately obtain c where r: "last (cellsToCheck s) = Coordinates_toString c"
    and present0: "deref ?g (last (cellsToCheck s)) \<noteq> None"
    by blast
  from present0 r have present: "deref ?g (Coordinates_toString c) \<noteq> None" by simp
  from False r have nc: "Coordinates_toString c \<notin> cellsChecked s" by simp
  note eq = tick_step_visit_eq [OF ginv r nc present, of blend, unfolded Let_def]
  show ?thesis
  proof (cases "\<not> isAlive (cellAt ?g c) \<and> live_count ?g c = 3")
    case True
    then obtain c0 c1 c2 where av: "average_color blend (liveNeighbors_at ?g c) = Inr (blend c0 c1 c2)"
      and ok: "color_ok c0" "color_ok c1" "color_ok c2"
      using average_color_Inr [OF ginv, of c blend] by blast
    from valid ok have "length (blend c0 c1 c2) = 3" "\<forall>v \<in> set (blend c0 c1 c2). channel_ok v"
      unfolding blend_valid_def by blast+
    then have "setColor (blend c0 c1 c2) (cellAt ?g c) =
        Inr ((cellAt ?g c)\<lparr>getColor := Some (map integer_value (blend c0 c1 c2))\<rparr>)"
      by (rule setColor_valid)
    with True av show ?thesis
      unfolding eq by simp
  next
    case False
    then show ?thesis
      unfolding eq by auto
  qed
qed

lemma tick_loop_ok:
  "tick_inv blend g0 s \<Longrightarrow> blend_valid blend \<Longrightarrow> \<exists>s'. tick_loop blend s = Inr s'"
proof (induction blend s rule: tick_loop.induct)
  case (1 blend s)
  show ?case
  proof (cases "cellsToCheck s = []")
    case True
    then show ?thesis by (simp add: tick_loop.simps [of blend s])
  next
    case False
    with "1.prems" obtain s1 where step: "tick_step blend s = Inr s1"
      using tick_step_ok by blast
    have "tick_inv blend g0 s1"
      using "1.prems"(1) False step by (rule tick_step_inv)
    with "1.IH" [of s1] False step "1.prems"(2) obtain s' where "tick_loop blend s1 = Inr s'"
      by auto
    with False step show ?thesis
      by (simp add: tick_loop.simps [of blend s])
  qed
qed

section \<open>The result of the transition\<close>

lemma naive_cell_alive:
  "isAlive (cellAt g c) \<Longrightarrow>
   naive_cell blend g c = (if flips g c then setDead (cellAt g c) else cellAt g c)"
  by (simp add: naive_cell_def flips_def live_count_def liveNeighbors_at_def Let_def)

lemma naive_cell_dead:
  assumes "grid_inv g" and "\<not> isAlive (cellAt g c)"
  shows "naive_cell blend g c = (if flips g c then (examined blend g c)\<lparr>isAlive := True\<rparr> else cellAt g c)"
proof (cases "live_count g c = 3")
  case True
  then obtain c0 c1 c2 where "average_color blend (liveNeighbors_at g c) = Inr (blend c0 c1 c2)"
    using average_color_Inr [OF assms(1)] by blast
  with True assms(2) show ?thesis
    by (simp add: naive_cell_def flips_def examined_def live_count_def liveNeighbors_at_def Let_def)
next
  case False
  with assms(2) show ?thesis
    by (simp add: naive_cell_def flips_def live_count_def liveNeighbors_at_def Let_def)
qed

lemma examined_born_color:
  assumes "grid_inv g" and "\<not> isAlive (cellAt g c)" and "live_count g c = 3"
  shows "getColor (examined blend g c) \<noteq> None"
proof -
  obtain c0 c1 c2 where "average_color blend (liveNeighbors_at g c) = Inr (blend c0 c1 c2)"
    using average_color_Inr [OF assms(1,3)] by blast
  with assms(2,3) show ?thesis
    by (simp add: examined_def)
qed

lemma tick_loop_final:
  assumes ginv: "grid_inv g" and loop: "tick_loop blend (tick_start g) = Inr s"
  shows "\<exists>g'. switch_all (cellsToSwitch s) (the_grid s) = Inr g' \<and> grid_inv g' \<and>
           getMaxX g' = getMaxX g \<and> getMaxY g' = getMaxY g \<and>
           (\<forall>d. cellAt g' d = (if in_bounds g d then naive_cell blend g d else cellAt g d))"
proof -
  let ?gs = "the_grid s"
  have "tick_inv blend g s \<and> cellsToCheck s = []"
    using tick_start_inv [OF ginv] loop by (rule tick_loop_inv)
  then have inv: "tick_inv blend g s" and empty: "cellsToCheck s = []"
    by simp_all
  note u = inv [unfolded tick_inv_def]
  have gs_inv: "grid_inv ?gs" using u by (elim conjE)
  have mx: "getMaxX ?gs = getMaxX g" using u by (elim conjE)
  have my: "getMaxY ?gs = getMaxY g" using u by (elim conjE)
  have refs: "\<forall>r \<in> set (cellsToCheck s) \<union> cellsChecked s.
        \<exists>c. r = Coordinates_toString c \<and> in_bounds g c \<and> deref ?gs r \<noteq> None"
    using u by (elim conjE)
  have dist: "distinct (cellsToSwitch s)" using u by (elim conjE)
  have sub: "set (cellsToSwitch s) \<subseteq> cellsChecked s" using u by (elim conjE)
  have dec: "\<forall>c. Coordinates_toString c \<in> cellsChecked s \<longrightarrow>
        (Coordinates_toString c \<in> set (cellsToSwitch s) \<longleftrightarrow> flips g c)"
    using u by (elim conjE)
  have cells: "\<forall>c. cellAt ?gs c =
        (if Coordinates_toString c \<in> cellsChecked s then examined blend g c else cellAt g c)"
    using u by (elim conjE)
  have live: "\<forall>c. isAlive (cellAt g c) \<longrightarrow>
        Coordinates_toString c \<in> cellsChecked s \<union> set (cellsToCheck s)"
    using u by (elim conjE)
  have nbrs: "\<forall>c d. Coordinates_toString c \<in> cellsChecked s \<and> isAlive (cellAt g c) \<and>
        d \<in> set (nbr_coords g c) \<longrightarrow>
        Coordinates_toString d \<in> cellsChecked s \<union> set (cellsToCheck s)"
    using u by (elim conjE)
  have "\<forall>r \<in> set (cellsToSwitch s). \<exists>c. r = Coordinates_toString c \<and> in_bounds ?gs c \<and>
           (\<exists>cell. deref ?gs r = Some cell \<and> (\<not> isAlive cell \<longrightarrow> getColor cell \<noteq> None))"
  proof
    fix r assume r: "r \<in> set (cellsToSwitch s)"
    with sub have chk: "r \<in> cellsChecked s" by blast
    with refs obtain c cell where c: "r = Coordinates_toString c" "in_bounds g c"
      and cell: "deref ?gs r = Some cell"
      by blast
    have "cellAt ?gs c = cell"
      using cell c(1) by (simp add: deref_cellAt)
    with cells chk c(1) have at: "cell = examined blend g c"
      by simp
    have fl: "flips g c"
      using dec chk r c(1) by blast
    have "getColor cell \<noteq> None" if "\<not> isAlive cell"
    proof -
      from that have dead: "\<not> isAlive (cellAt g c)" by (simp add: at)
      with fl have "live_count g c = 3" by (simp add: flips_def)
      with ginv dead show ?thesis
        unfolding at by (rule examined_born_color)
    qed
    moreover have "in_bounds ?gs c"
      using c(2) by (simp add: tick_inv_in_bounds [OF inv])
    ultimately show "\<exists>c. r = Coordinates_toString c \<and> in_bounds ?gs c \<and>
           (\<exists>cell. deref ?gs r = Some cell \<and> (\<not> isAlive cell \<longrightarrow> getColor cell \<noteq> None))"
      using c(1) cell by blast
  qed
  from switch_all_result [OF gs_inv dist this] obtain g' where
    res: "switch_all (cellsToSwitch s) ?gs = Inr g'" "grid_inv g'"
      "getMaxX g' = getMaxX ?gs" "getMaxY g' = getMaxY ?gs"
    and view: "\<forall>d. cellAt g' d =
        (if Coordinates_toString d \<in> set (cellsToSwitch s) then switched (cellAt ?gs d) else cellAt ?gs d)"
    by blast
  have "cellAt g' d = (if in_bounds g d then naive_cell blend g d else cellAt g d)" for d
  proof (cases "Coordinates_toString d \<in> cellsChecked s")
    case True
    with refs obtain c where "Coordinates_toString d = Coordinates_toString c" "in_bounds g c"
      by blast
    then have inb: "in_bounds g d" by simp
    from True cells have at: "cellAt ?gs d = examined blend g d" by simp
    from True dec have sw: "Coordinates_toString d \<in> set (cellsToSwitch s) \<longleftrightarrow> flips g d" by blast
    show ?thesis
    proof (cases "isAlive (cellAt g d)")
      case alive: True
      then show ?thesis
        using view sw inb by (simp add: at examined_alive naive_cell_alive switched_def)
    next
      case dead: False
      show ?thesis
      proof (cases "flips g d")
        case True
        with dead view sw inb show ?thesis
          by (simp add: at naive_cell_dead [OF ginv] switched_def)
      next
        case False
        with dead have "examined blend g d = cellAt g d"
          by (simp add: examined_def flips_def)
        with False dead view sw inb show ?thesis
          by (simp add: at naive_cell_dead [OF ginv])
      qed
    qed
  next
    case False
    with sub have nsw: "Coordinates_toString d \<notin> set (cellsToSwitch s)" by blast
    from False cells have at: "cellAt ?gs d = cellAt g d" by simp
    from False live empty have dead: "\<not> isAlive (cellAt g d)" by auto
    have "\<not> flips g d" if inb: "in_bounds g d"
    proof
      assume "flips g d"
      with dead have "0 < live_count g d" by (simp add: flips_def)
      then obtain e where e: "e \<in> set (nbr_coords g d)" "isAlive (cellAt g e)"
        using live_count_pos by blast
      from e(2) live empty have "Coordinates_toString e \<in> cellsChecked s" by auto
      moreover have "d \<in> set (nbr_coords g e)"
        using inb e(1) by (rule nbr_coords_sym)
      ultimately have "Coordinates_toString d \<in> cellsChecked s"
        using nbrs e(2) empty by auto
      with False show False by blast
    qed
    with dead view nsw show ?thesis
      by (simp add: at naive_cell_dead [OF ginv])
  qed
  with res mx my show ?thesis
    by simp
qed

section \<open>Which cells the loop reaches\<close>

lemma reached_inv_start: "grid_inv g \<Longrightarrow> reached_inv g (tick_start g)"
proof -
  assume ginv: "grid_inv g"
  have "\<exists>c. r = Coordinates_toString c \<and> near_live g c"
    if "r \<in> set (map fst (filter (\<lambda>(k, cell). isAlive cell) (grid g)))" for r
  proof -
    from that obtain cell where mem: "(r, cell) \<in> set (grid g)" and alive: "isAlive cell"
      by auto
    from ginv mem have r: "r = Coordinates_toString (getCoordinates cell)" and "distinct (map fst (grid g))"
      by (auto simp: grid_inv_def)
    with mem have "deref g (Coordinates_toString (getCoordinates cell)) = Some cell"
      by (simp add: deref_def)
    then have "cellAt g (getCoordinates cell) = cell"
      by (rule deref_cellAt)
    with alive r show ?thesis
      by (auto simp: near_live_def)
  qed
  then show ?thesis
    by (simp add: reached_inv_def tick_start_def)
qed

lemma reached_inv_step:
  assumes inv: "tick_inv blend g0 s" and g0: "grid_inv g0" and re: "reached_inv g0 s"
    and ne: "cellsToCheck s \<noteq> []" and step: "tick_step blend s = Inr s'"
  shows "reached_inv g0 s'"
proof (cases "last (cellsToCheck s) \<in> cellsChecked s")
  case True
  with step have "s' = s\<lparr>cellsToCheck := butlast (cellsToCheck s)\<rparr>"
    by (simp add: tick_step_skip)
  with re show ?thesis
    by (auto simp: reached_inv_def dest: in_set_butlastD)
next
  case False
  let ?g = "the_grid s"
  have refs: "\<forall>r \<in> set (cellsToCheck s) \<union> cellsChecked s.
        \<exists>c. r = Coordinates_toString c \<and> in_bounds g0 c \<and> deref ?g r \<noteq> None"
    using inv [unfolded tick_inv_def] by (elim conjE)
  have "last (cellsToCheck s) \<in> set (cellsToCheck s) \<union> cellsChecked s"
    using ne by simp
  from refs [rule_format, OF this] obtain c where r: "last (cellsToCheck s) = Coordinates_toString c"
    and inb0: "in_bounds g0 c" and present0: "deref ?g (last (cellsToCheck s)) \<noteq> None"
    by blast
  from present0 r have present: "deref ?g (Coordinates_toString c) \<noteq> None" by simp
  from False r have nc: "Coordinates_toString c \<notin> cellsChecked s" by simp
  have ginv: "grid_inv ?g" using inv by (simp add: tick_inv_def)
  have inb: "in_bounds ?g c" using inb0 by (simp add: tick_inv_in_bounds [OF inv])
  note res = tick_step_visit_result [OF ginv r nc present inb step]
  have near_c: "near_live g0 c"
    using re ne r unfolding reached_inv_def
    by (metis Coordinates_toString_inj UnI1 last_in_set)
  show ?thesis
    unfolding reached_inv_def
  proof
    fix q assume "q \<in> set (cellsToCheck s') \<union> cellsChecked s'"
    then consider "q \<in> set (butlast (cellsToCheck s)) \<union> cellsChecked s" | "q = Coordinates_toString c"
      | "isAlive (cellAt g0 c)" "q \<in> Coordinates_toString ` set (nbr_coords g0 c)"
      by (auto simp: res(1) res(3) tick_inv_alive [OF inv] tick_inv_nbr_coords [OF inv] split: if_splits)
    then show "\<exists>c. q = Coordinates_toString c \<and> near_live g0 c"
    proof cases
      case 1
      then have "q \<in> set (cellsToCheck s) \<union> cellsChecked s"
        by (auto dest: in_set_butlastD)
      with re show ?thesis by (simp add: reached_inv_def)
    next
      case 2
      with near_c show ?thesis by blast
    next
      case 3
      then obtain d where d: "d \<in> set (nbr_coords g0 c)" "q = Coordinates_toString d" by blast
      from inb0 d(1) have "c \<in> set (nbr_coords g0 d)" by (rule nbr_coords_sym)
      with 3(1) have "near_live g0 d" by (auto simp: near_live_def)
      with d(2) show ?thesis by blast
    qed
  qed
qed

lemma reached_inv_loop:
  "tick_inv blend g0 s \<Longrightarrow> grid_inv g0 \<Longrightarrow> reached_inv g0 s \<Longrightarrow> tick_loop blend s = Inr s' \<Longrightarrow>
   reached_inv g0 s'"
proof (induction blend s rule: tick_loop.induct)
  case (1 blend s)
  show ?case
  proof (cases "cellsToCheck s = []")
    case True
    with "1.prems" show ?thesis by (simp add: tick_loop.simps [of blend s])
  next
    case False
    with "1.prems"(4) obtain s1 where step: "tick_step blend s = Inr s1" and rest: "tick_loop blend s1 = Inr s'"
      by (auto simp: tick_loop.simps [of blend s] split: sum.splits)
    have "tick_inv blend g0 s1"
      using "1.prems"(1) False step by (rule tick_step_inv)
    moreover have "reached_inv g0 s1"
      using "1.prems"(1,2,3) False step by (rule reached_inv_step)
    ultimately show ?thesis
      using "1.IH" [of s1] False step rest "1.prems"(2) by simp
  qed
qed

lemma near_live_count: "near_live g c \<Longrightarrow> \<not> isAlive (cellAt g c) \<Longrightarrow> 0 < live_count g c"
proof -
  assume "near_live g c" and "\<not> isAlive (cellAt g c)"
  then obtain e where "e \<in> set (nbr_coords g c)" "isAlive (cellAt g e)"
    by (auto simp: near_live_def)
  then have "cellAt g e \<in> set (liveNeighbors_at g c)"
    by (simp add: liveNeighbors_at_def)
  then show ?thesis
    by (auto simp: live_count_def)
qed

lemma naive_cell_cong:
  assumes "\<forall>c. cellAt h c = cellAt g c" and "getMaxX h = getMaxX g" and "getMaxY h = getMaxY g"
  shows "naive_cell blend h c = naive_cell blend g c"
proof -
  have "in_bounds h = in_bounds g"
    using assms(2,3) by (simp add: in_bounds_def fun_eq_iff)
  then have "nbr_coords h c = nbr_coords g c"
    by (simp add: nbr_coords_def)
  moreover have "cellAt h = cellAt g"
    using assms(1) by (simp add: fun_eq_iff)
  ultimately show ?thesis
    unfolding naive_cell_def by (simp only:)
qed

lemma tick_result:
  assumes "grid_inv g" and "tick blend g = Inr g'"
  shows "grid_inv g'" and "getMaxX g' = getMaxX g" and "getMaxY g' = getMaxY g"
    and "cellAt g' c = (if in_bounds g c then naive_cell blend g c else cellAt g c)"
proof -
  from assms(2) obtain s where loop: "tick_loop blend (tick_start g) = Inr s"
    and sw: "switch_all (cellsToSwitch s) (the_grid s) = Inr g'"
    by (auto simp: tick_eq split: sum.splits)
  from tick_loop_final [OF assms(1) loop, of ] sw
  show "grid_inv g'" and "getMaxX g' = getMaxX g" and "getMaxY g' = getMaxY g"
    and "cellAt g' c = (if in_bounds g c then naive_cell blend g c else cellAt g c)"
    by auto
qed

lemma tick_ok:
  assumes "grid_inv g" and "blend_valid blend"
  shows "\<exists>g'. tick blend g = Inr g'"
proof -
  obtain s where loop: "tick_loop blend (tick_start g) = Inr s"
    using tick_loop_ok [OF tick_start_inv [OF assms(1)] assms(2)] by blast
  with tick_loop_final [OF assms(1) loop] show ?thesis
    by (auto simp: tick_eq)
qed

section \<open>The generation transition: the classical rule and the naive evaluation\<close>

lemma tick_blinker_grid: "tick first_color blinker_grid = Inr blinker_grid_next"
  by code_simp

lemma blend_valid_first_color: "blend_valid first_color"
  by (auto simp: blend_valid_def first_color_def color_ok_def)

lemma isAlive_naive_cell:
  assumes "grid_inv g"
  shows "isAlive (naive_cell blend g c) \<longleftrightarrow>
           (if isAlive (cellAt g c) then live_count g c = 2 \<or> live_count g c = 3 else live_count g c = 3)"
proof (cases "isAlive (cellAt g c)")
  case True
  then show ?thesis
    by (auto simp: naive_cell_alive flips_def setDead_def)
next
  case False
  then show ?thesis
    by (simp add: naive_cell_dead [OF assms] flips_def)
qed

text \<open>
  C1. On a grid that satisfies its invariant, the loop that evaluates the cells leaves
  every alive flag as it was, so every decision is taken on the state before the tick,
  and the flips are applied afterwards. When the tick completes, a live cell with fewer
  than two or more than three live neighbours before the tick is dead, a live cell with
  two or three stays alive, a dead cell with exactly three is alive, and any other dead
  cell stays dead. The tick completes whenever the blend yields colours that
  \<open>setColor\<close> accepts.
\<close>

theorem tick_classical_rule:
  assumes "grid_inv g"
  shows "(blend_valid blend \<longrightarrow> (\<exists>g'. tick blend g = Inr g')) \<and>
         (\<forall>s c. tick_loop blend (tick_start g) = Inr s \<longrightarrow>
            isAlive (cellAt (the_grid s) c) = isAlive (cellAt g c)) \<and>
         (\<forall>g' c. tick blend g = Inr g' \<and> in_bounds g c \<longrightarrow>
            (isAlive (cellAt g c) \<and> (live_count g c < 2 \<or> live_count g c > 3) \<longrightarrow> \<not> isAlive (cellAt g' c)) \<and>
            (isAlive (cellAt g c) \<and> (live_count g c = 2 \<or> live_count g c = 3) \<longrightarrow> isAlive (cellAt g' c)) \<and>
            (\<not> isAlive (cellAt g c) \<and> live_count g c = 3 \<longrightarrow> isAlive (cellAt g' c)) \<and>
            (\<not> isAlive (cellAt g c) \<and> live_count g c \<noteq> 3 \<longrightarrow> \<not> isAlive (cellAt g' c)))"
proof (intro conjI allI impI)
  assume "blend_valid blend"
  with assms show "\<exists>g'. tick blend g = Inr g'"
    by (rule tick_ok)
next
  fix s c assume "tick_loop blend (tick_start g) = Inr s"
  with tick_start_inv [OF assms] have "tick_inv blend g s \<and> cellsToCheck s = []"
    by (rule tick_loop_inv)
  then have "tick_inv blend g s"
    by simp
  then show "isAlive (cellAt (the_grid s) c) = isAlive (cellAt g c)"
    by (rule tick_inv_alive)
next
  fix g' c assume a: "tick blend g = Inr g' \<and> in_bounds g c"
  then have at: "isAlive (cellAt g' c) \<longleftrightarrow>
      (if isAlive (cellAt g c) then live_count g c = 2 \<or> live_count g c = 3 else live_count g c = 3)"
    using tick_result(4) [OF assms, of blend g' c] by (simp add: isAlive_naive_cell [OF assms])
  {
    assume "isAlive (cellAt g c) \<and> (live_count g c < 2 \<or> live_count g c > 3)"
    with at show "\<not> isAlive (cellAt g' c)" by auto
  next
    assume "isAlive (cellAt g c) \<and> (live_count g c = 2 \<or> live_count g c = 3)"
    with at show "isAlive (cellAt g' c)" by auto
  next
    assume "\<not> isAlive (cellAt g c) \<and> live_count g c = 3"
    with at show "isAlive (cellAt g' c)" by auto
  next
    assume "\<not> isAlive (cellAt g c) \<and> live_count g c \<noteq> 3"
    with at show "\<not> isAlive (cellAt g' c)" by auto
  }
qed

theorem tick_classical_rule_witness:
  "grid_inv blinker_grid \<and> blend_valid first_color \<and>
   (\<exists>g'. tick first_color blinker_grid = Inr g' \<and>
      \<not> isAlive (cellAt g' \<lparr>getX = 0, getY = 1\<rparr>) \<and>
      isAlive (cellAt g' \<lparr>getX = 1, getY = 1\<rparr>) \<and>
      isAlive (cellAt g' \<lparr>getX = 1, getY = 0\<rparr>) \<and>
      \<not> isAlive (cellAt g' \<lparr>getX = 0, getY = 0\<rparr>))"
proof -
  note rule = tick_classical_rule [OF grid_inv_blinker_grid, of first_color]
  from rule blend_valid_first_color obtain g' where t: "tick first_color blinker_grid = Inr g'"
    by blast
  have b: "in_bounds blinker_grid \<lparr>getX = 0, getY = 1\<rparr>" "in_bounds blinker_grid \<lparr>getX = 1, getY = 1\<rparr>"
    "in_bounds blinker_grid \<lparr>getX = 1, getY = 0\<rparr>" "in_bounds blinker_grid \<lparr>getX = 0, getY = 0\<rparr>"
    by code_simp+
  have a: "isAlive (cellAt blinker_grid \<lparr>getX = 0, getY = 1\<rparr>)"
    "isAlive (cellAt blinker_grid \<lparr>getX = 1, getY = 1\<rparr>)"
    "\<not> isAlive (cellAt blinker_grid \<lparr>getX = 1, getY = 0\<rparr>)"
    "\<not> isAlive (cellAt blinker_grid \<lparr>getX = 0, getY = 0\<rparr>)"
    by code_simp+
  have n: "live_count blinker_grid \<lparr>getX = 0, getY = 1\<rparr> = 1"
    "live_count blinker_grid \<lparr>getX = 1, getY = 1\<rparr> = 2"
    "live_count blinker_grid \<lparr>getX = 1, getY = 0\<rparr> = 3"
    "live_count blinker_grid \<lparr>getX = 0, getY = 0\<rparr> = 2"
    by code_simp+
  from rule t b(1) a(1) n(1) have "\<not> isAlive (cellAt g' \<lparr>getX = 0, getY = 1\<rparr>)" by simp
  moreover from rule t b(2) a(2) n(2) have "isAlive (cellAt g' \<lparr>getX = 1, getY = 1\<rparr>)" by simp
  moreover from rule t b(3) a(3) n(3) have "isAlive (cellAt g' \<lparr>getX = 1, getY = 0\<rparr>)" by simp
  moreover from rule t b(4) a(4) n(4) have "\<not> isAlive (cellAt g' \<lparr>getX = 0, getY = 0\<rparr>)" by simp
  ultimately show ?thesis
    using t grid_inv_blinker_grid blend_valid_first_color by blast
qed

text \<open>
  C2. When the tick completes on a grid that satisfies its invariant, the cell at every
  position within the bounds is the one the naive evaluation of that position against
  the grid before the tick gives, and nothing exists outside the bounds. A dead cell
  without live neighbour is not among the cells the loop examined and is unchanged.
  The result does not depend on the order of the Map, which is the order the loop
  starts from: two grids with the same bounds and the same cell at every position
  have the same cells after the tick.
\<close>

theorem tick_refines_naive:
  assumes "grid_inv g" and "tick blend g = Inr g'"
  shows "(\<forall>c. cellAt g' c = (if in_bounds g c then naive_cell blend g c else cellAt g c)) \<and>
         (\<forall>s c. tick_loop blend (tick_start g) = Inr s \<and> \<not> isAlive (cellAt g c) \<and> live_count g c = 0 \<longrightarrow>
            Coordinates_toString c \<notin> cellsChecked s \<and> cellAt g' c = cellAt g c) \<and>
         (\<forall>h h'. grid_inv h \<and> getMaxX h = getMaxX g \<and> getMaxY h = getMaxY g \<and>
            (\<forall>c. cellAt h c = cellAt g c) \<and> tick blend h = Inr h' \<longrightarrow>
            (\<forall>c. cellAt h' c = cellAt g' c))"
proof (intro conjI)
  show "\<forall>c. cellAt g' c = (if in_bounds g c then naive_cell blend g c else cellAt g c)"
    using tick_result(4) [OF assms] by blast
next
  show "\<forall>s c. tick_loop blend (tick_start g) = Inr s \<and> \<not> isAlive (cellAt g c) \<and> live_count g c = 0 \<longrightarrow>
            Coordinates_toString c \<notin> cellsChecked s \<and> cellAt g' c = cellAt g c"
  proof (intro allI impI)
    fix s c
    assume a: "tick_loop blend (tick_start g) = Inr s \<and> \<not> isAlive (cellAt g c) \<and> live_count g c = 0"
  have "reached_inv g s"
    using tick_start_inv [OF assms(1)] assms(1) reached_inv_start [OF assms(1)] a
    by (blast intro: reached_inv_loop)
  moreover have "\<not> near_live g c"
    using a near_live_count [of g c] by auto
  ultimately have "Coordinates_toString c \<notin> cellsChecked s"
    unfolding reached_inv_def by (metis Coordinates_toString_inj UnI2)
  moreover have "naive_cell blend g c = cellAt g c"
    using a by (simp add: naive_cell_dead [OF assms(1)] flips_def)
  then have "cellAt g' c = cellAt g c"
    using tick_result(4) [OF assms, of c] by simp
  ultimately show "Coordinates_toString c \<notin> cellsChecked s \<and> cellAt g' c = cellAt g c"
    by simp
  qed
next
  show "\<forall>h h'. grid_inv h \<and> getMaxX h = getMaxX g \<and> getMaxY h = getMaxY g \<and>
            (\<forall>c. cellAt h c = cellAt g c) \<and> tick blend h = Inr h' \<longrightarrow>
            (\<forall>c. cellAt h' c = cellAt g' c)"
  proof (intro allI impI)
  fix h h' c
  assume a: "grid_inv h \<and> getMaxX h = getMaxX g \<and> getMaxY h = getMaxY g \<and>
            (\<forall>c. cellAt h c = cellAt g c) \<and> tick blend h = Inr h'"
  then have "cellAt h' c = (if in_bounds h c then naive_cell blend h c else cellAt h c)"
    using tick_result(4) [of h blend h' c] by simp
  moreover have "in_bounds h c = in_bounds g c"
    using a by (simp add: in_bounds_def)
  moreover have "naive_cell blend h c = naive_cell blend g c"
    using a by (simp add: naive_cell_cong)
  ultimately show "cellAt h' c = cellAt g' c"
    using a tick_result(4) [OF assms, of c] by simp
  qed
qed

theorem tick_refines_naive_witness:
  "grid_inv blinker_grid \<and> tick first_color blinker_grid = Inr blinker_grid_next \<and>
   cellAt blinker_grid_next \<lparr>getX = 1, getY = 0\<rparr> = naive_cell first_color blinker_grid \<lparr>getX = 1, getY = 0\<rparr> \<and>
   naive_cell first_color blinker_grid \<lparr>getX = 1, getY = 0\<rparr> = live_cell 1 0 [255, 0, 0] \<and>
   cellAt blinker_grid_next \<lparr>getX = 0, getY = 1\<rparr> = naive_cell first_color blinker_grid \<lparr>getX = 0, getY = 1\<rparr> \<and>
   naive_cell first_color blinker_grid \<lparr>getX = 0, getY = 1\<rparr> = dead_cell 0 1"
proof -
  note t = tick_blinker_grid
  have b: "in_bounds blinker_grid \<lparr>getX = 1, getY = 0\<rparr>" "in_bounds blinker_grid \<lparr>getX = 0, getY = 1\<rparr>"
    by code_simp+
  have n: "naive_cell first_color blinker_grid \<lparr>getX = 1, getY = 0\<rparr> = live_cell 1 0 [255, 0, 0]"
    "naive_cell first_color blinker_grid \<lparr>getX = 0, getY = 1\<rparr> = dead_cell 0 1"
    by code_simp+
  from tick_refines_naive [OF grid_inv_blinker_grid t] b n t grid_inv_blinker_grid show ?thesis
    by simp
qed

section \<open>Pattern placement: the loop terminates\<close>

lemma randomPop_Some:
  assumes "randomPop u xs = (Some r, ys)"
  shows "\<exists>i < length xs. r = xs ! i \<and> ys = take i xs @ drop (Suc i) xs"
proof -
  define index where "index = \<lfloor>u * of_nat (length xs)\<rfloor>"
  from assms have range: "0 \<le> index \<and> index < int (length xs)"
    unfolding randomPop_def Let_def index_def [symmetric] by (simp split: if_splits)
  then have "min index (int (length xs)) = index" "\<not> index < 0" by simp_all
  with assms range have "r = xs ! nat index" "ys = take (nat index) xs @ drop (Suc (nat index)) xs"
    unfolding randomPop_def Let_def index_def [symmetric] by simp_all
  moreover from range have "nat index < length xs" by (simp add: nat_less_iff)
  ultimately show ?thesis by blast
qed

lemma randomPop_shorter: "randomPop u xs = (Some r, ys) \<Longrightarrow> length ys < length xs"
  by (drule randomPop_Some) auto

termination placement_loop
  apply (relation "measure (\<lambda>(random, n, deadCells, variations, g). length deadCells)")
   apply simp
  apply (auto dest: randomPop_shorter [OF sym])
  done

declare placement_loop.simps [simp del]

section \<open>Keys and their coordinates\<close>

lemma split_no_sep: "sep \<notin> set t \<Longrightarrow> split sep t = [t]"
  by (induction t) auto

lemma split_at_sep: "sep \<notin> set s \<Longrightarrow> sep \<notin> set t \<Longrightarrow> split sep (s @ sep # t) = [s, t]"
  by (induction s) (auto simp: split_no_sep)

lemma is_digit_digits: "ch \<in> set (digits n) \<Longrightarrow> is_digit ch"
  using digits_chars [of ch n] by (simp add: is_digit_def)

lemma takeWhile_digits [simp]: "takeWhile is_digit (digits n) = digits n"
  by (simp add: is_digit_digits)

lemma digits_value_snoc: "digits_value (s @ [ch]) = 10 * digits_value s + (of_char ch - 48)"
  by (simp add: digits_value_def)

lemma digits_value_digits [simp]: "digits_value (digits n) = n"
proof (induction n rule: digits.induct)
  case (1 n)
  show ?case
  proof (cases "n < 10")
    case True
    then show ?thesis
      by (simp add: digits.simps [of n] digits_value_def of_char_digit_char)
  next
    case False
    then have "digits_value (digits n) = 10 * digits_value (digits (n div 10)) + (of_char (digit_char (n mod 10)) - 48)"
      by (simp add: digits.simps [of n] digits_value_snoc)
    with False "1.IH" show ?thesis
      by (simp add: of_char_digit_char)
  qed
qed

lemma parseInt_Number_toString [simp]: "parseInt (Number_toString n) = Finite (of_int n)"
proof (cases "n < 0")
  case True
  then show ?thesis
    by (simp add: parseInt_def Number_toString_def)
next
  case False
  obtain ch t where d: "digits (nat n) = ch # t"
    by (cases "digits (nat n)") simp_all
  then have "ch \<in> set (digits (nat n))" by simp
  then have "48 \<le> (of_char ch :: nat)" by (auto dest: digits_chars)
  then have "ch \<noteq> CHR ''-''" "ch \<noteq> CHR ''+''" by auto
  with False d have "parseInt (Number_toString n) =
      (let ds = takeWhile is_digit (digits (nat n))
       in if ds = [] then NaN else Finite (of_int (int (digits_value ds))))"
    by (simp add: parseInt_def Number_toString_def)
  with False show ?thesis by simp
qed

lemma Coordinates_eta [simp]: "\<lparr>getX = getX c, getY = getY c\<rparr> = c"
  by (cases c) simp

lemma cell_of_key_eq: "cell_of_key (Coordinates_toString c) g = getCell c g"
proof -
  have "split CHR '','' (Coordinates_toString c) = [Number_toString (getX c), Number_toString (getY c)]"
    unfolding Coordinates_toString_def
    using split_at_sep [of "CHR '',''" "Number_toString (getX c)" "Number_toString (getY c)"]
    by (simp add: comma_notin_Number_toString)
  then show ?thesis
    by (simp add: cell_of_key_def new_Coordinates_def)
qed

section \<open>Pattern placement: the dead cells\<close>

lemma allCoordinates_eq: "allCoordinates g = map Coordinates_toString (all_positions g)"
  by (simp add: allCoordinates_def all_positions_def map_concat comp_def)

lemma set_all_positions: "set (all_positions g) = {c. in_bounds g c}"
proof
  show "set (all_positions g) \<subseteq> {c. in_bounds g c}"
    by (auto simp: all_positions_def in_bounds_def)
next
  show "{c. in_bounds g c} \<subseteq> set (all_positions g)"
  proof
    fix c assume "c \<in> {c. in_bounds g c}"
    then have y: "getY c \<in> set [0..getMaxY g]" and x: "getX c \<in> set [0..getMaxX g]"
      by (simp_all add: in_bounds_def)
    have "\<lparr>getX = getX c, getY = getY c\<rparr> \<in> (\<lambda>x. \<lparr>getX = x, getY = getY c\<rparr>) ` set [0..getMaxX g]"
      using x by (rule imageI)
    then have "c \<in> set (map (\<lambda>x. \<lparr>getX = x, getY = getY c\<rparr>) [0..getMaxX g])"
      by (simp only: Coordinates_eta set_map)
    with y have "\<exists>y \<in> set [0..getMaxY g]. c \<in> set (map (\<lambda>x. \<lparr>getX = x, getY = y\<rparr>) [0..getMaxX g])"
      by (rule bexI [rotated])
    then show "c \<in> set (all_positions g)"
      unfolding all_positions_def by (simp only: set_concat set_map UN_iff bex_simps image_iff)
  qed
qed

lemma fold_removeAll:
  "fold (\<lambda>cell dead. if P cell then removeAll (f cell) dead else dead) cells xs =
   filter (\<lambda>k. k \<notin> f ` {cell \<in> set cells. P cell}) xs"
proof (induction cells arbitrary: xs)
  case Nil
  show ?case by simp
next
  case (Cons cell cells)
  show ?case
  proof (cases "P cell")
    case True
    then have "fold (\<lambda>cell dead. if P cell then removeAll (f cell) dead else dead) (cell # cells) xs =
        filter (\<lambda>k. k \<notin> f ` {cell \<in> set cells. P cell}) (filter (\<lambda>k. f cell \<noteq> k) xs)"
      by (simp add: Cons.IH removeAll_filter_not_eq)
    also have "\<dots> = filter (\<lambda>k. k \<notin> f ` {c \<in> set (cell # cells). P c}) xs"
      unfolding filter_filter using True by (intro filter_cong) auto
    finally show ?thesis .
  next
    case False
    then have "fold (\<lambda>cell dead. if P cell then removeAll (f cell) dead else dead) (cell # cells) xs =
        filter (\<lambda>k. k \<notin> f ` {cell \<in> set cells. P cell}) xs"
      by (simp add: Cons.IH)
    also have "\<dots> = filter (\<lambda>k. k \<notin> f ` {c \<in> set (cell # cells). P c}) xs"
      using False by (intro filter_cong) auto
    finally show ?thesis .
  qed
qed

lemma alive_key_iff:
  assumes "grid_inv g"
  shows "Coordinates_toString c \<in> (\<lambda>cell. Coordinates_toString (getCoordinates cell)) ` {cell \<in> snd ` set (grid g). isAlive cell}
         \<longleftrightarrow> isAlive (cellAt g c)"
proof
  assume "Coordinates_toString c \<in> (\<lambda>cell. Coordinates_toString (getCoordinates cell)) ` {cell \<in> snd ` set (grid g). isAlive cell}"
  then obtain k cell where mem: "(k, cell) \<in> set (grid g)" and alive: "isAlive cell"
    and c: "getCoordinates cell = c"
    by auto
  with assms have "k = Coordinates_toString c" and "distinct (map fst (grid g))"
    by (auto simp: grid_inv_def)
  with mem have "deref g (Coordinates_toString c) = Some cell"
    by (simp add: deref_def)
  then show "isAlive (cellAt g c)"
    using alive by (simp add: deref_cellAt)
next
  assume "isAlive (cellAt g c)"
  then obtain cell where d: "deref g (Coordinates_toString c) = Some cell" and alive: "isAlive cell"
    by (auto simp: cellAt_def new_Cell_def split: option.splits)
  from d have "(Coordinates_toString c, cell) \<in> set (grid g)"
    by (simp add: deref_def map_of_SomeD)
  then have "cell \<in> snd ` set (grid g)"
    by (rule rev_image_eqI) simp
  moreover have "getCoordinates cell = c"
    using assms d by (rule grid_inv_deref_key)
  ultimately show "Coordinates_toString c \<in> (\<lambda>cell. Coordinates_toString (getCoordinates cell)) ` {cell \<in> snd ` set (grid g). isAlive cell}"
    using alive by (intro image_eqI [where x = cell]) simp_all
qed

lemma deadCoordinates_eq:
  assumes "grid_inv g"
  shows "deadCoordinates g = map Coordinates_toString (dead_positions g)"
  unfolding deadCoordinates_def fold_removeAll allCoordinates_eq dead_positions_def filter_map comp_def set_map
  by (simp only: alive_key_iff [OF assms])

lemma map_on_grid_cell_of_key:
  "map_on_grid cell_of_key (map Coordinates_toString cs) g = getCells cs g"
proof (induction cs arbitrary: g)
  case Nil
  show ?case by simp
next
  case (Cons c cs)
  show ?case
    by (simp add: cell_of_key_eq Cons.IH cong: sum.case_cong prod.case_cong)
qed

lemma getAllDeadCells_eq:
  assumes "grid_inv g"
  shows "getAllDeadCells g =
           Inr (map Coordinates_toString (dead_positions g), fold materialize (dead_positions g) g)"
proof -
  have "\<forall>c \<in> set (dead_positions g). in_bounds g c"
    by (simp add: dead_positions_def set_all_positions)
  then show ?thesis
    by (simp add: getAllDeadCells_def deadCoordinates_eq [OF assms] map_on_grid_cell_of_key getCells_eq)
qed

lemma filter_checked_eq: "\<forall>x \<in> set xs. p x = Inr (q x) \<Longrightarrow> filter_checked p xs = Inr (filter q xs)"
  by (induction xs) simp_all

section \<open>Pattern placement: the candidates\<close>

lemma filter_checked_map:
  "\<forall>x \<in> set xs. p (f x) = Inr (q x) \<Longrightarrow> filter_checked p (map f xs) = Inr (map f (filter q xs))"
  by (induction xs) simp_all

lemma bounds_onlyD:
  "bounds_only eligible \<Longrightarrow> getMaxX g' = getMaxX g \<Longrightarrow> getMaxY g' = getMaxY g \<Longrightarrow>
   eligible g' = eligible g"
  unfolding bounds_only_def by blast

lemma candidates_eq:
  assumes ginv: "grid_inv g" and bo: "bounds_only eligible"
  shows "candidates eligible g =
           Inr (map Coordinates_toString (filter (eligible g) (dead_positions g)),
                fold materialize (dead_positions g) g)"
proof -
  let ?ds = "dead_positions g"
  let ?g1 = "fold materialize ?ds g"
  have inb: "\<forall>c \<in> set ?ds. in_bounds g c"
    by (simp add: dead_positions_def set_all_positions)
  have g1_inv: "grid_inv ?g1"
    using ginv inb by (rule grid_inv_fold_materialize)
  have el: "eligible ?g1 = eligible g"
    using bo by (rule bounds_onlyD) simp_all
  have "\<forall>c \<in> set ?ds.
      (case read_cell ?g1 (Coordinates_toString c) of Inl e \<Rightarrow> Inl e
       | Inr cell \<Rightarrow> Inr (eligible ?g1 (getCoordinates cell))) = Inr (eligible g c)"
  proof
    fix c assume "c \<in> set ?ds"
    then have "deref ?g1 (Coordinates_toString c) \<noteq> None"
      by (rule deref_fold_materialize_present)
    then have "read_cell ?g1 (Coordinates_toString c) = Inr (cellAt ?g1 c)"
      by (rule read_cell_cellAt)
    moreover have "getCoordinates (cellAt ?g1 c) = c"
      using g1_inv by (rule cellAt_coordinates)
    ultimately show "(case read_cell ?g1 (Coordinates_toString c) of Inl e \<Rightarrow> Inl e
       | Inr cell \<Rightarrow> Inr (eligible ?g1 (getCoordinates cell))) = Inr (eligible g c)"
      by (simp add: el)
  qed
  then have "filter_checked
      (\<lambda>r. case read_cell ?g1 r of Inl e \<Rightarrow> Inl e | Inr cell \<Rightarrow> Inr (eligible ?g1 (getCoordinates cell)))
      (map Coordinates_toString ?ds) = Inr (map Coordinates_toString (filter (eligible g) ?ds))"
    by (rule filter_checked_map)
  then show ?thesis
    by (simp add: candidates_def getAllDeadCells_eq [OF ginv])
qed

section \<open>Pattern placement: variations, draws and writes\<close>

lemma length_filter_eq_length: "length (filter P xs) = length xs \<longleftrightarrow> (\<forall>x \<in> set xs. P x)"
proof (induction xs)
  case Nil
  show ?case by simp
next
  case (Cons x xs)
  have "length (filter P xs) \<noteq> Suc (length xs)"
    by (metis length_filter_le Suc_n_not_le_n)
  with Cons show ?case by auto
qed

lemma no_live_cell_eq:
  assumes "\<forall>d \<in> set ds. deref g (Coordinates_toString d) \<noteq> None"
  shows "no_live_cell g (map Coordinates_toString ds) = Inr (\<forall>d \<in> set ds. \<not> isAlive (cellAt g d))"
proof -
  have "collect (map (read_cell g) (map Coordinates_toString ds)) = Inr (map (cellAt g) ds)"
    using assms by (rule collect_read_cells)
  moreover have "length (filter (\<lambda>cell. \<not> isAlive cell) (map (cellAt g) ds)) = length (map (cellAt g) ds)
      \<longleftrightarrow> (\<forall>d \<in> set ds. \<not> isAlive (cellAt g d))"
    unfolding length_filter_eq_length by simp
  ultimately show ?thesis
    by (simp add: no_live_cell_def)
qed

lemma fetch_variations:
  assumes "\<forall>v \<in> set vs. \<forall>d \<in> set (addOffsets c v). in_bounds g d"
  shows "map_on_grid (\<lambda>variation. getCells (addOffsets c variation)) vs g =
           Inr (map (\<lambda>v. map Coordinates_toString (addOffsets c v)) vs,
                fold materialize (concat (map (addOffsets c) vs)) g)"
  using assms
proof (induction vs arbitrary: g)
  case Nil
  show ?case by simp
next
  case (Cons v vs)
  have "\<forall>va \<in> set vs. \<forall>d \<in> set (addOffsets c va). in_bounds (fold materialize (addOffsets c v) g) d"
    using Cons.prems by simp
  from Cons.IH [OF this] Cons.prems show ?case
    by (simp add: getCells_eq)
qed

lemma filterValidVariations_eq:
  assumes "getCoordinates cell = c" and "\<forall>v \<in> set vs. \<forall>d \<in> set (addOffsets c v). in_bounds g d"
  shows "filterValidVariations cell vs g =
           Inr (map (\<lambda>v. map Coordinates_toString (addOffsets c v)) (filter (fits g c) vs),
                fold materialize (concat (map (addOffsets c) vs)) g)"
proof -
  let ?g1 = "fold materialize (concat (map (addOffsets c) vs)) g"
  have "\<forall>v \<in> set vs. no_live_cell ?g1 (map Coordinates_toString (addOffsets c v)) = Inr (fits g c v)"
  proof
    fix v assume v: "v \<in> set vs"
    have "\<forall>d \<in> set (addOffsets c v). deref ?g1 (Coordinates_toString d) \<noteq> None"
    proof
      fix d assume "d \<in> set (addOffsets c v)"
      with v have "d \<in> set (concat (map (addOffsets c) vs))" by auto
      then show "deref ?g1 (Coordinates_toString d) \<noteq> None"
        by (rule deref_fold_materialize_present)
    qed
    then show "no_live_cell ?g1 (map Coordinates_toString (addOffsets c v)) = Inr (fits g c v)"
      by (simp add: no_live_cell_eq fits_def)
  qed
  then have "filter_checked (no_live_cell ?g1) (map (\<lambda>v. map Coordinates_toString (addOffsets c v)) vs) =
      Inr (map (\<lambda>v. map Coordinates_toString (addOffsets c v)) (filter (fits g c) vs))"
    by (rule filter_checked_map)
  then show ?thesis
    by (simp add: filterValidVariations_def assms(1) fetch_variations [OF assms(2)])
qed

lemma randomPop_in_range:
  assumes "0 \<le> u" and "u < 1" and "xs \<noteq> []"
  shows "\<exists>i < length xs. randomPop u xs = (Some (xs ! i), take i xs @ drop (Suc i) xs)"
proof -
  define index where "index = \<lfloor>u * of_nat (length xs)\<rfloor>"
  have "0 \<le> u * of_nat (length xs)"
    using assms(1) by simp
  then have lo: "0 \<le> index"
    by (simp add: index_def)
  have "u * of_nat (length xs) < 1 * of_nat (length xs)"
    using assms(2,3) by (intro mult_strict_right_mono) simp_all
  then have "u * of_nat (length xs) < of_int (int (length xs))"
    by simp
  then have hi: "index < int (length xs)"
    unfolding index_def by (simp only: floor_less_iff)
  from lo hi have "randomPop u xs =
      (Some (xs ! nat index), take (nat index) xs @ drop (Suc (nat index)) xs)"
    unfolding randomPop_def Let_def index_def [symmetric] by simp
  moreover from lo hi have "nat index < length xs"
    by (simp add: nat_less_iff)
  ultimately show ?thesis by blast
qed

lemma set_cells_result:
  assumes "grid_inv g" and "valid_rgb color"
    and "\<forall>d \<in> set ds. in_bounds g d \<and> deref g (Coordinates_toString d) \<noteq> None"
  shows "\<exists>g'. set_cells color (map Coordinates_toString ds) g = Inr g' \<and> grid_inv g' \<and>
           getMaxX g' = getMaxX g \<and> getMaxY g' = getMaxY g \<and>
           (\<forall>e. cellAt g' e = (if e \<in> set ds then placed_cell color e else cellAt g e))"
  using assms
proof (induction ds arbitrary: g)
  case Nil
  then show ?case by simp
next
  case (Cons d ds)
  let ?r = "Coordinates_toString d"
  define cell'' where "cell'' = placed_cell color d"
  define g1 where "g1 = write_cell ?r cell'' g"
  from Cons.prems(3) have inb: "in_bounds g d" and present: "deref g ?r \<noteq> None"
    by simp_all
  have rd: "read_cell g ?r = Inr (cellAt g d)"
    using present by (rule read_cell_cellAt)
  have sc: "setColor color (cellAt g d) = Inr ((cellAt g d)\<lparr>getColor := Some (map integer_value color)\<rparr>)"
    using Cons.prems(2) by (simp add: valid_rgb_def setColor_valid)
  have co: "getCoordinates (cellAt g d) = d"
    using Cons.prems(1) by simp
  have "(cellAt g d)\<lparr>getColor := Some (map integer_value color), isAlive := True\<rparr> = cell''"
    unfolding cell''_def placed_cell_def using co by (cases "cellAt g d") simp
  then have step: "set_cells color (map Coordinates_toString (d # ds)) g =
      set_cells color (map Coordinates_toString ds) g1"
    by (simp add: rd sc setAlive_def g1_def)
  have "color_ok (map integer_value color)"
    using sc by (rule setColor_Inr(2))
  then have "cell_inv cell''"
    by (simp add: cell''_def placed_cell_def cell_inv_def)
  moreover have "getCoordinates cell'' = d"
    by (simp add: cell''_def placed_cell_def)
  ultimately have g1_inv: "grid_inv g1"
    unfolding g1_def using Cons.prems(1) inb by (intro grid_inv_write_cell) simp_all
  have "\<forall>e \<in> set ds. in_bounds g1 e \<and> deref g1 (Coordinates_toString e) \<noteq> None"
    using Cons.prems(3) by (simp add: g1_def)
  from Cons.IH [OF g1_inv Cons.prems(2) this] obtain g' where
    res: "set_cells color (map Coordinates_toString ds) g1 = Inr g'" "grid_inv g'"
      "getMaxX g' = getMaxX g1" "getMaxY g' = getMaxY g1"
    and view: "\<forall>e. cellAt g' e = (if e \<in> set ds then placed_cell color e else cellAt g1 e)"
    by blast
  have "cellAt g' e = (if e \<in> set (d # ds) then placed_cell color e else cellAt g e)" for e
    using view by (simp add: g1_def cell''_def)
  with res step show ?case
    by (simp add: g1_def)
qed

section \<open>Pattern placement: the loop\<close>

lemma fits_cong: "\<forall>d. cellAt g' d = cellAt g d \<Longrightarrow> fits g' c v = fits g c v"
  by (simp add: fits_def)

lemma safe_center_cong:
  "getMaxX g' = getMaxX g \<Longrightarrow> getMaxY g' = getMaxY g \<Longrightarrow> safe_center g' vs c = safe_center g vs c"
  by (simp add: safe_center_def in_bounds_def)

lemma set_remove_nth: "i < length xs \<Longrightarrow> set xs = insert (xs ! i) (set (take i xs @ drop (Suc i) xs))"
proof -
  assume "i < length xs"
  then have "xs = take i xs @ xs ! i # drop (Suc i) xs"
    by (rule id_take_nth_drop)
  then have "set xs = set (take i xs @ xs ! i # drop (Suc i) xs)"
    by simp
  then show ?thesis
    by simp
qed

lemma placement_loop_result:
  assumes "grid_inv g" and "\<forall>n. 0 \<le> random n \<and> random n < 1"
    and "\<forall>r \<in> set rs. \<exists>c. r = Coordinates_toString c \<and> safe_center g vs c \<and> deref g r \<noteq> None"
  shows "\<exists>res n' g'. placement_loop random n rs vs g = Inr (res, n', g') \<and> grid_inv g' \<and>
           getMaxX g' = getMaxX g \<and> getMaxY g' = getMaxY g \<and> (\<forall>d. cellAt g' d = cellAt g d) \<and>
           (case res of
              None \<Rightarrow> (\<forall>c v. Coordinates_toString c \<in> set rs \<and> v \<in> set vs \<longrightarrow> \<not> fits g c v)
            | Some cells \<Rightarrow>
                (\<exists>c v. Coordinates_toString c \<in> set rs \<and> v \<in> set vs \<and> fits g c v \<and>
                   cells = map Coordinates_toString (addOffsets c v) \<and>
                   (\<forall>d \<in> set (addOffsets c v). deref g' (Coordinates_toString d) \<noteq> None)))"
  using assms
proof (induction "length rs" arbitrary: rs n g rule: less_induct)
  case less
  show ?case
  proof (cases "rs = []")
    case True
    with less.prems(1) show ?thesis
      by (simp add: placement_loop.simps [of random n "[]" vs g])
  next
    case False
    from less.prems(2) have u: "0 \<le> random n" "random n < 1" by simp_all
    from randomPop_in_range [OF u False] obtain i where i: "i < length rs"
      and pop: "randomPop (random n) rs = (Some (rs ! i), take i rs @ drop (Suc i) rs)"
      by blast
    let ?rest = "take i rs @ drop (Suc i) rs"
    have mem: "rs ! i \<in> set rs" using i by simp
    with less.prems(3) obtain c where r: "rs ! i = Coordinates_toString c"
      and safe: "safe_center g vs c" and present0: "deref g (rs ! i) \<noteq> None"
      by blast
    from present0 r have present: "deref g (Coordinates_toString c) \<noteq> None" by simp
    have rd: "read_cell g (rs ! i) = Inr (cellAt g c)"
      unfolding r using present by (rule read_cell_cellAt)
    have co: "getCoordinates (cellAt g c) = c"
      using less.prems(1) by simp
    have inb: "\<forall>v \<in> set vs. \<forall>d \<in> set (addOffsets c v). in_bounds g d"
      using safe by (simp add: safe_center_def)
    let ?ds = "concat (map (addOffsets c) vs)"
    let ?g1 = "fold materialize ?ds g"
    let ?valid = "map (\<lambda>v. map Coordinates_toString (addOffsets c v)) (filter (fits g c) vs)"
    have fv: "filterValidVariations (cellAt g c) vs g = Inr (?valid, ?g1)"
      using co inb by (rule filterValidVariations_eq)
    have g1_inv: "grid_inv ?g1"
      using less.prems(1) inb by (intro grid_inv_fold_materialize) auto
    have unfold: "placement_loop random n rs vs g =
        (if length ?valid > 0 then Inr (fst (randomPop (random (n + 1)) ?valid), n + 2, ?g1)
         else placement_loop random (n + 1) ?rest vs ?g1)"
      using False by (simp add: placement_loop.simps [of random n rs vs g] pop rd fv)
    show ?thesis
    proof (cases "?valid = []")
      case valid: False
      from less.prems(2) have u': "0 \<le> random (n + 1)" "random (n + 1) < 1" by simp_all
      from randomPop_in_range [OF u' valid] obtain j where j: "j < length ?valid"
        and pop': "randomPop (random (n + 1)) ?valid = (Some (?valid ! j), take j ?valid @ drop (Suc j) ?valid)"
        by blast
      from j have "?valid ! j \<in> set ?valid" by (rule nth_mem)
      then obtain v where v: "v \<in> set vs" "fits g c v" "?valid ! j = map Coordinates_toString (addOffsets c v)"
        by auto
      have "\<forall>d \<in> set (addOffsets c v). deref ?g1 (Coordinates_toString d) \<noteq> None"
      proof
        fix d assume "d \<in> set (addOffsets c v)"
        with v(1) have "d \<in> set ?ds" by auto
        then show "deref ?g1 (Coordinates_toString d) \<noteq> None"
          by (rule deref_fold_materialize_present)
      qed
      with v r mem have "\<exists>c v. Coordinates_toString c \<in> set rs \<and> v \<in> set vs \<and> fits g c v \<and>
                   ?valid ! j = map Coordinates_toString (addOffsets c v) \<and>
                   (\<forall>d \<in> set (addOffsets c v). deref ?g1 (Coordinates_toString d) \<noteq> None)"
        by auto
      moreover have "placement_loop random n rs vs g = Inr (Some (?valid ! j), n + 2, ?g1)"
        using valid unfolding unfold pop' by simp
      ultimately show ?thesis
        using g1_inv by simp
    next
      case none: True
      then have unfold': "placement_loop random n rs vs g = placement_loop random (n + 1) ?rest vs ?g1"
        unfolding unfold by simp
      from none have nofit: "\<forall>v \<in> set vs. \<not> fits g c v"
        by (auto simp: filter_empty_conv)
      have shorter: "length ?rest < length rs"
        using i by simp
      have sub: "set ?rest \<subseteq> set rs"
        using set_remove_nth [OF i] by auto
      have pre: "\<forall>r \<in> set ?rest. \<exists>c. r = Coordinates_toString c \<and> safe_center ?g1 vs c \<and> deref ?g1 r \<noteq> None"
      proof
        fix q assume "q \<in> set ?rest"
        with sub have "q \<in> set rs" by blast
        with less.prems(3) obtain c' where "q = Coordinates_toString c'" "safe_center g vs c'" "deref g q \<noteq> None"
          by blast
        moreover have "safe_center ?g1 vs c' = safe_center g vs c'"
          by (rule safe_center_cong) simp_all
        ultimately show "\<exists>c. q = Coordinates_toString c \<and> safe_center ?g1 vs c \<and> deref ?g1 q \<noteq> None"
          by (auto simp: deref_fold_materialize_keep)
      qed
      from less.hyps [OF shorter g1_inv less.prems(2) pre, of "n + 1"] obtain res n' g' where
        run: "placement_loop random (n + 1) ?rest vs ?g1 = Inr (res, n', g')"
        and inv': "grid_inv g'" "getMaxX g' = getMaxX ?g1" "getMaxY g' = getMaxY ?g1"
        and view: "\<forall>d. cellAt g' d = cellAt ?g1 d"
        and res: "case res of
              None \<Rightarrow> (\<forall>c v. Coordinates_toString c \<in> set ?rest \<and> v \<in> set vs \<longrightarrow> \<not> fits ?g1 c v)
            | Some cells \<Rightarrow>
                (\<exists>c v. Coordinates_toString c \<in> set ?rest \<and> v \<in> set vs \<and> fits ?g1 c v \<and>
                   cells = map Coordinates_toString (addOffsets c v) \<and>
                   (\<forall>d \<in> set (addOffsets c v). deref g' (Coordinates_toString d) \<noteq> None))"
        by blast
      have fits1: "fits ?g1 c' v = fits g c' v" for c' v
        by (rule fits_cong) simp
      have "case res of
              None \<Rightarrow> (\<forall>c v. Coordinates_toString c \<in> set rs \<and> v \<in> set vs \<longrightarrow> \<not> fits g c v)
            | Some cells \<Rightarrow>
                (\<exists>c v. Coordinates_toString c \<in> set rs \<and> v \<in> set vs \<and> fits g c v \<and>
                   cells = map Coordinates_toString (addOffsets c v) \<and>
                   (\<forall>d \<in> set (addOffsets c v). deref g' (Coordinates_toString d) \<noteq> None))"
      proof (cases res)
        case None
        with res have "\<forall>c v. Coordinates_toString c \<in> set ?rest \<and> v \<in> set vs \<longrightarrow> \<not> fits g c v"
          by (simp add: fits1)
        moreover have "set rs = insert (Coordinates_toString c) (set ?rest)"
          using set_remove_nth [OF i] r by simp
        ultimately show ?thesis
          using nofit None by auto
      next
        case (Some cells)
        with res sub show ?thesis
          by (auto simp: fits1)
      qed
      with run inv' view show ?thesis
        unfolding unfold' by simp
    qed
  qed
qed

section \<open>Pattern placement: the result\<close>

lemma mem_dead_positions: "c \<in> set (dead_positions g) \<longleftrightarrow> in_bounds g c \<and> \<not> isAlive (cellAt g c)"
  by (auto simp: dead_positions_def set_all_positions)

lemma key_image_iff: "Coordinates_toString c \<in> Coordinates_toString ` S \<longleftrightarrow> c \<in> S"
  by auto

lemma tryGenerate_result:
  assumes ginv: "grid_inv g" and rnd: "\<forall>n. 0 \<le> random n \<and> random n < 1" and col: "valid_rgb color"
    and bo: "bounds_only eligible"
    and safe: "\<forall>c. in_bounds g c \<and> eligible g c \<longrightarrow> safe_center g vs c"
  shows "\<exists>g'. tryGenerate eligible vs random color g = Inr g' \<and> grid_inv g' \<and>
           getMaxX g' = getMaxX g \<and> getMaxY g' = getMaxY g \<and>
           (if \<exists>c v. placeable eligible vs g c v
            then \<exists>c v. placeable eligible vs g c v \<and>
                   (\<forall>e. cellAt g' e = (if e \<in> set (addOffsets c v) then placed_cell color e else cellAt g e))
            else \<forall>e. cellAt g' e = cellAt g e)"
proof -
  let ?cs = "filter (eligible g) (dead_positions g)"
  let ?rs = "map Coordinates_toString ?cs"
  let ?g1 = "fold materialize (dead_positions g) g"
  have cand: "candidates eligible g = Inr (?rs, ?g1)"
    using ginv bo by (rule candidates_eq)
  have g1_inv: "grid_inv ?g1"
    using ginv by (rule grid_inv_fold_materialize) (simp add: mem_dead_positions)
  have in_rs: "Coordinates_toString c \<in> set ?rs \<longleftrightarrow> in_bounds g c \<and> \<not> isAlive (cellAt g c) \<and> eligible g c" for c
    unfolding set_map key_image_iff by (auto simp: mem_dead_positions)
  have pre: "\<forall>r \<in> set ?rs. \<exists>c. r = Coordinates_toString c \<and> safe_center ?g1 vs c \<and> deref ?g1 r \<noteq> None"
  proof
    fix r assume "r \<in> set ?rs"
    then obtain c where c: "c \<in> set (dead_positions g)" "eligible g c" "r = Coordinates_toString c"
      by auto
    then have "in_bounds g c" by (simp add: mem_dead_positions)
    with c(2) safe have "safe_center g vs c" by blast
    moreover have "safe_center ?g1 vs c = safe_center g vs c"
      by (rule safe_center_cong) simp_all
    moreover have "deref ?g1 (Coordinates_toString c) \<noteq> None"
      using c(1) by (rule deref_fold_materialize_present)
    ultimately show "\<exists>c. r = Coordinates_toString c \<and> safe_center ?g1 vs c \<and> deref ?g1 r \<noteq> None"
      using c(3) by blast
  qed
  from placement_loop_result [OF g1_inv rnd pre, of 0] obtain res n' g2 where
    run: "placement_loop random 0 ?rs vs ?g1 = Inr (res, n', g2)"
    and g2: "grid_inv g2" "getMaxX g2 = getMaxX ?g1" "getMaxY g2 = getMaxY ?g1"
    and view2: "\<forall>d. cellAt g2 d = cellAt ?g1 d"
    and res: "case res of
              None \<Rightarrow> (\<forall>c v. Coordinates_toString c \<in> set ?rs \<and> v \<in> set vs \<longrightarrow> \<not> fits ?g1 c v)
            | Some cells \<Rightarrow>
                (\<exists>c v. Coordinates_toString c \<in> set ?rs \<and> v \<in> set vs \<and> fits ?g1 c v \<and>
                   cells = map Coordinates_toString (addOffsets c v) \<and>
                   (\<forall>d \<in> set (addOffsets c v). deref g2 (Coordinates_toString d) \<noteq> None))"
    by blast
  have fits1: "fits ?g1 c v = fits g c v" for c v
    by (rule fits_cong) simp
  have unfold: "tryGenerate eligible vs random color g =
      (case res of None \<Rightarrow> Inr g2 | Some cells \<Rightarrow> set_cells color cells g2)"
    by (simp add: tryGenerate_def cand tryInstantiatePattern_def run)
  show ?thesis
  proof (cases res)
    case None
    with res have nf: "\<forall>c v. Coordinates_toString c \<in> set ?rs \<and> v \<in> set vs \<longrightarrow> \<not> fits ?g1 c v"
      by (simp only: option.case)
    have "\<not> placeable eligible vs g c v" for c v
    proof
      assume "placeable eligible vs g c v"
      then have "in_bounds g c \<and> \<not> isAlive (cellAt g c) \<and> eligible g c" and v: "v \<in> set vs" "fits g c v"
        by (simp_all add: placeable_def)
      then have "Coordinates_toString c \<in> set ?rs"
        using in_rs [of c] by blast
      with nf v(1) have "\<not> fits ?g1 c v" by blast
      with v(2) show False by (simp add: fits1)
    qed
    then have "\<not> (\<exists>c v. placeable eligible vs g c v)"
      by blast
    with None g2 view2 show ?thesis
      unfolding unfold by simp
  next
    case (Some cells)
    with res have "\<exists>c v. Coordinates_toString c \<in> set ?rs \<and> v \<in> set vs \<and> fits ?g1 c v \<and>
                   cells = map Coordinates_toString (addOffsets c v) \<and>
                   (\<forall>d \<in> set (addOffsets c v). deref g2 (Coordinates_toString d) \<noteq> None)"
      by (simp only: option.case)
    then obtain c v where c: "Coordinates_toString c \<in> set ?rs" and v1: "v \<in> set vs" "fits ?g1 c v"
      and cells: "cells = map Coordinates_toString (addOffsets c v)"
      and present: "\<forall>d \<in> set (addOffsets c v). deref g2 (Coordinates_toString d) \<noteq> None"
      by blast
    from v1 have v: "v \<in> set vs" "fits g c v"
      by (simp_all only: fits1)
    from c have c': "in_bounds g c" "\<not> isAlive (cellAt g c)" "eligible g c"
      using in_rs [of c] by blast+
    then have pl: "placeable eligible vs g c v"
      using v by (simp add: placeable_def)
    from c'(1,3) safe have "safe_center g vs c" by blast
    with v(1) have "\<forall>d \<in> set (addOffsets c v). in_bounds g d"
      by (simp add: safe_center_def)
    moreover have "in_bounds g2 = in_bounds g"
      using g2(2,3) by (simp add: in_bounds_def fun_eq_iff)
    ultimately have "\<forall>d \<in> set (addOffsets c v). in_bounds g2 d \<and> deref g2 (Coordinates_toString d) \<noteq> None"
      using present by simp
    from set_cells_result [OF g2(1) col this] obtain g3 where
      g3: "set_cells color (map Coordinates_toString (addOffsets c v)) g2 = Inr g3" "grid_inv g3"
        "getMaxX g3 = getMaxX g2" "getMaxY g3 = getMaxY g2"
      and view3: "\<forall>e. cellAt g3 e = (if e \<in> set (addOffsets c v) then placed_cell color e else cellAt g2 e)"
      by blast
    have "\<forall>e. cellAt g3 e = (if e \<in> set (addOffsets c v) then placed_cell color e else cellAt g e)"
      using view3 view2 by simp
    with pl have "\<exists>c v. placeable eligible vs g c v \<and>
                   (\<forall>e. cellAt g3 e = (if e \<in> set (addOffsets c v) then placed_cell color e else cellAt g e))"
      by blast
    moreover from pl have "\<exists>c v. placeable eligible vs g c v" by blast
    ultimately show ?thesis
      unfolding unfold Some cells using g3 g2 by simp
  qed
qed

lemma bounds_only_block_center: "bounds_only block_center"
  by (simp add: bounds_only_def block_center_def fun_eq_iff)

lemma bounds_only_inner_center: "bounds_only inner_center"
  by (simp add: bounds_only_def inner_center_def fun_eq_iff)

lemma safe_block: "in_bounds g c \<and> block_center g c \<longrightarrow> safe_center g block_variations c"
  by (auto simp: safe_center_def block_center_def block_variations_def addOffsets_def in_bounds_def Let_def)

lemma safe_blinker: "in_bounds g c \<and> inner_center g c \<longrightarrow> safe_center g blinker_variations c"
  by (auto simp: safe_center_def inner_center_def blinker_variations_def addOffsets_def in_bounds_def Let_def)

lemma safe_glider: "in_bounds g c \<and> inner_center g c \<longrightarrow> safe_center g glider_variations c"
  by (auto simp: safe_center_def inner_center_def glider_variations_def addOffsets_def in_bounds_def Let_def)

section \<open>Pattern placement: every fitting place is found\<close>

lemma variations_not_empty:
  "v \<in> set block_variations \<or> v \<in> set blinker_variations \<or> v \<in> set glider_variations \<Longrightarrow> v \<noteq> []"
  by (auto simp: block_variations_def blinker_variations_def glider_variations_def)

lemma placement_outcome_intro:
  assumes "\<forall>v \<in> set vs. v \<noteq> []"
    and "if \<exists>c v. placeable eligible vs g c v
         then \<exists>c v. placeable eligible vs g c v \<and>
                (\<forall>e. cellAt g' e = (if e \<in> set (addOffsets c v) then placed_cell color e else cellAt g e))
         else \<forall>e. cellAt g' e = cellAt g e"
  shows "placement_outcome eligible vs color g g'"
proof (cases "\<exists>c v. placeable eligible vs g c v")
  case False
  with assms(2) show ?thesis
    by (simp add: placement_outcome_def)
next
  case True
  with assms(2) obtain c v where p: "placeable eligible vs g c v"
    and view: "\<forall>e. cellAt g' e = (if e \<in> set (addOffsets c v) then placed_cell color e else cellAt g e)"
    by auto
  from p have v: "v \<in> set vs" and f: "fits g c v"
    by (simp_all add: placeable_def)
  with assms(1) obtain d where d: "d \<in> set (addOffsets c v)"
    by (cases v) (auto simp: addOffsets_def)
  with f have "\<not> isAlive (cellAt g d)"
    by (simp add: fits_def)
  moreover from d view have "isAlive (cellAt g' d)"
    by (simp add: placed_cell_def)
  ultimately have "\<not> (\<forall>e. cellAt g' e = cellAt g e)"
    by metis
  with True p view show ?thesis
    unfolding placement_outcome_def by blast
qed

text \<open>
  C7. On a grid that satisfies its invariant, with every value of \<open>Math.random()\<close> in
  [0, 1) and a valid colour, each of the three placement operations returns: the loop
  is a total function, since every draw removes the drawn candidate from the list. No
  cell differs afterwards exactly when no variation of the pattern fits at any dead
  cell within the bounds that passes the pattern's filter; otherwise the cells of one
  such variation at one such centre are alive in the given colour and all other cells
  are as before.
\<close>

theorem placement_finds_a_fit:
  assumes "grid_inv g" and "\<forall>n. 0 \<le> random n \<and> random n < 1" and "valid_rgb color"
  shows "(\<exists>g'. tryGenerateBlock random color g = Inr g' \<and>
            placement_outcome block_center block_variations color g g') \<and>
         (\<exists>g'. tryGenerateBlinker random color g = Inr g' \<and>
            placement_outcome inner_center blinker_variations color g g') \<and>
         (\<exists>g'. tryGenerateGlider random color g = Inr g' \<and>
            placement_outcome inner_center glider_variations color g g')"
proof (intro conjI)
  have ne: "\<forall>v \<in> set block_variations. v \<noteq> []" "\<forall>v \<in> set blinker_variations. v \<noteq> []"
    "\<forall>v \<in> set glider_variations. v \<noteq> []"
    using variations_not_empty by blast+
  from tryGenerate_result [OF assms bounds_only_block_center, of block_variations] safe_block
  show "\<exists>g'. tryGenerateBlock random color g = Inr g' \<and>
            placement_outcome block_center block_variations color g g'"
    unfolding tryGenerateBlock_def by (blast intro: placement_outcome_intro [OF ne(1)])
  from tryGenerate_result [OF assms bounds_only_inner_center, of blinker_variations] safe_blinker
  show "\<exists>g'. tryGenerateBlinker random color g = Inr g' \<and>
            placement_outcome inner_center blinker_variations color g g'"
    unfolding tryGenerateBlinker_def by (blast intro: placement_outcome_intro [OF ne(2)])
  from tryGenerate_result [OF assms bounds_only_inner_center, of glider_variations] safe_glider
  show "\<exists>g'. tryGenerateGlider random color g = Inr g' \<and>
            placement_outcome inner_center glider_variations color g g'"
    unfolding tryGenerateGlider_def by (blast intro: placement_outcome_intro [OF ne(3)])
qed

lemma grid_inv_empty_grid: "grid_inv (empty_grid maxX maxY)"
  by (simp add: grid_inv_def empty_grid_def)

lemma valid_rgb_red: "valid_rgb [Integer 255, Integer 0, Integer 0]"
  by (simp add: valid_rgb_def channel_ok_def)

lemma every_draw_range: "0 \<le> u \<Longrightarrow> u < 1 \<Longrightarrow> \<forall>n. 0 \<le> every_draw u n \<and> every_draw u n < 1"
  by (simp add: every_draw_def)

theorem placement_finds_a_fit_witness:
  "grid_inv blinker_grid \<and> (\<forall>n. 0 \<le> every_draw (1 / 2) n \<and> every_draw (1 / 2) n < 1) \<and>
   valid_rgb [Integer 255, Integer 0, Integer 0] \<and>
   (\<exists>g'. tryGenerateBlinker (every_draw (1 / 2)) [Integer 255, Integer 0, Integer 0] blinker_grid = Inr g' \<and>
      placement_outcome inner_center blinker_variations [Integer 255, Integer 0, Integer 0] blinker_grid g') \<and>
   (\<exists>g'. tryGenerateBlock (every_draw (1 / 2)) [Integer 255, Integer 0, Integer 0] blinker_grid = Inr g' \<and>
      placement_outcome block_center block_variations [Integer 255, Integer 0, Integer 0] blinker_grid g')"
proof -
  have r: "\<forall>n. 0 \<le> every_draw (1 / 2) n \<and> every_draw (1 / 2) n < 1"
    by (rule every_draw_range) simp_all
  from placement_finds_a_fit [OF grid_inv_blinker_grid r valid_rgb_red] grid_inv_blinker_grid r valid_rgb_red
  show ?thesis
    by blast
qed

section \<open>Pattern placement: blocks on full and on empty grids\<close>

lemma tryGenerate_no_candidates:
  assumes "grid_inv g" and "bounds_only eligible" and "\<forall>c. in_bounds g c \<longrightarrow> isAlive (cellAt g c)"
  shows "tryGenerate eligible vs random color g = Inr g"
proof -
  have "dead_positions g = []"
    using assms(3) by (simp add: dead_positions_def set_all_positions filter_empty_conv)
  then have "candidates eligible g = Inr ([], g)"
    using candidates_eq [OF assms(1,2)] by simp
  then show ?thesis
    by (simp add: tryGenerate_def tryInstantiatePattern_def placement_loop.simps [of random 0 "[]" vs g])
qed

lemma block_positions:
  "addOffsets c [(0, 0), (1, 0), (0, 1), (1, 1)] =
     [c, \<lparr>getX = getX c + 1, getY = getY c\<rparr>, \<lparr>getX = getX c, getY = getY c + 1\<rparr>,
      \<lparr>getX = getX c + 1, getY = getY c + 1\<rparr>]"
  by (simp add: addOffsets_def)

lemma card_block:
  "card {\<lparr>getX = x, getY = y\<rparr>, \<lparr>getX = x + 1, getY = y\<rparr>, \<lparr>getX = x, getY = y + 1\<rparr>,
         \<lparr>getX = x + 1, getY = y + 1\<rparr>} = 4"
  by simp

text \<open>
  C6, as amended. On a grid that satisfies its invariant, with every value of
  \<open>Math.random()\<close> in [0, 1) and a valid colour: when every cell within the bounds is
  alive, \<open>tryGenerateBlock\<close> returns the grid as it is; when no cell is alive and the grid
  is at least 2 by 2, it makes the four cells of a 2 by 2 block alive in the given
  colour, the block's top left corner satisfies \<open>x < maxX\<close> and \<open>y < maxY\<close>, exactly
  these four cells are alive afterwards, and every other cell is as before.
\<close>

theorem tryGenerateBlock_full_or_empty:
  assumes "grid_inv g" and "\<forall>n. 0 \<le> random n \<and> random n < 1" and "valid_rgb color"
  shows "((\<forall>c. in_bounds g c \<longrightarrow> isAlive (cellAt g c)) \<longrightarrow> tryGenerateBlock random color g = Inr g) \<and>
         ((\<forall>c. \<not> isAlive (cellAt g c)) \<and> 1 \<le> getMaxX g \<and> 1 \<le> getMaxY g \<longrightarrow>
            (\<exists>g' x y. tryGenerateBlock random color g = Inr g' \<and>
               0 \<le> x \<and> x < getMaxX g \<and> 0 \<le> y \<and> y < getMaxY g \<and>
               (\<forall>e. cellAt g' e =
                  (if e \<in> {\<lparr>getX = x, getY = y\<rparr>, \<lparr>getX = x + 1, getY = y\<rparr>,
                            \<lparr>getX = x, getY = y + 1\<rparr>, \<lparr>getX = x + 1, getY = y + 1\<rparr>}
                   then placed_cell color e else cellAt g e)) \<and>
               {e. isAlive (cellAt g' e)} =
                 {\<lparr>getX = x, getY = y\<rparr>, \<lparr>getX = x + 1, getY = y\<rparr>,
                  \<lparr>getX = x, getY = y + 1\<rparr>, \<lparr>getX = x + 1, getY = y + 1\<rparr>} \<and>
               card {e. isAlive (cellAt g' e)} = 4))"
proof (intro conjI impI)
  assume "\<forall>c. in_bounds g c \<longrightarrow> isAlive (cellAt g c)"
  with assms(1) bounds_only_block_center show "tryGenerateBlock random color g = Inr g"
    unfolding tryGenerateBlock_def by (rule tryGenerate_no_candidates)
next
  assume a: "(\<forall>c. \<not> isAlive (cellAt g c)) \<and> 1 \<le> getMaxX g \<and> 1 \<le> getMaxY g"
  let ?o = "\<lparr>getX = 0, getY = 0\<rparr>"
  have "placeable block_center block_variations g ?o [(0, 0), (1, 0), (0, 1), (1, 1)]"
    using a by (simp add: placeable_def in_bounds_def block_center_def block_variations_def fits_def)
  then have ex: "\<exists>c v. placeable block_center block_variations g c v"
    by blast
  from tryGenerate_result [OF assms bounds_only_block_center, of block_variations] safe_block
  obtain g' where run: "tryGenerateBlock random color g = Inr g'"
    and out: "if \<exists>c v. placeable block_center block_variations g c v
              then \<exists>c v. placeable block_center block_variations g c v \<and>
                     (\<forall>e. cellAt g' e = (if e \<in> set (addOffsets c v) then placed_cell color e else cellAt g e))
              else \<forall>e. cellAt g' e = cellAt g e"
    unfolding tryGenerateBlock_def by blast
  from out ex have "\<exists>c v. placeable block_center block_variations g c v \<and>
                     (\<forall>e. cellAt g' e = (if e \<in> set (addOffsets c v) then placed_cell color e else cellAt g e))"
    by (simp only: if_True)
  then obtain c v where p: "placeable block_center block_variations g c v"
    and view: "\<forall>e. cellAt g' e = (if e \<in> set (addOffsets c v) then placed_cell color e else cellAt g e)"
    by blast
  from p have v: "v = [(0, 0), (1, 0), (0, 1), (1, 1)]"
    and c: "0 \<le> getX c" "getX c < getMaxX g" "0 \<le> getY c" "getY c < getMaxY g"
    by (simp_all add: placeable_def block_variations_def block_center_def in_bounds_def Let_def)
  let ?block = "{\<lparr>getX = getX c, getY = getY c\<rparr>, \<lparr>getX = getX c + 1, getY = getY c\<rparr>,
                 \<lparr>getX = getX c, getY = getY c + 1\<rparr>, \<lparr>getX = getX c + 1, getY = getY c + 1\<rparr>}"
  have set_eq: "set (addOffsets c v) = ?block"
    unfolding v block_positions by simp
  have view': "\<forall>e. cellAt g' e = (if e \<in> ?block then placed_cell color e else cellAt g e)"
    using view unfolding set_eq .
  have alive: "{e. isAlive (cellAt g' e)} = ?block"
  proof (rule set_eqI)
    fix e
    show "e \<in> {e. isAlive (cellAt g' e)} \<longleftrightarrow> e \<in> ?block"
      using view' a by (cases "e \<in> ?block") (simp_all add: placed_cell_def)
  qed
  have "card {e. isAlive (cellAt g' e)} = 4"
    unfolding alive by (rule card_block)
  with run c view' alive
  show "\<exists>g' x y. tryGenerateBlock random color g = Inr g' \<and>
               0 \<le> x \<and> x < getMaxX g \<and> 0 \<le> y \<and> y < getMaxY g \<and>
               (\<forall>e. cellAt g' e =
                  (if e \<in> {\<lparr>getX = x, getY = y\<rparr>, \<lparr>getX = x + 1, getY = y\<rparr>,
                            \<lparr>getX = x, getY = y + 1\<rparr>, \<lparr>getX = x + 1, getY = y + 1\<rparr>}
                   then placed_cell color e else cellAt g e)) \<and>
               {e. isAlive (cellAt g' e)} =
                 {\<lparr>getX = x, getY = y\<rparr>, \<lparr>getX = x + 1, getY = y\<rparr>,
                  \<lparr>getX = x, getY = y + 1\<rparr>, \<lparr>getX = x + 1, getY = y + 1\<rparr>} \<and>
               card {e. isAlive (cellAt g' e)} = 4"
    by blast
qed


lemma cellAt_empty_grid [simp]: "cellAt (empty_grid maxX maxY) c = new_Cell c"
  by (simp add: cellAt_def deref_def empty_grid_def)

theorem tryGenerateBlock_full_or_empty_witness:
  "grid_inv (empty_grid 1 1) \<and> (\<forall>n. 0 \<le> every_draw (1 / 2) n \<and> every_draw (1 / 2) n < 1) \<and>
   valid_rgb [Integer 255, Integer 0, Integer 0] \<and>
   (\<forall>c. \<not> isAlive (cellAt (empty_grid 1 1) c)) \<and>
   1 \<le> getMaxX (empty_grid 1 1) \<and> 1 \<le> getMaxY (empty_grid 1 1) \<and>
   (\<exists>g' x y. tryGenerateBlock (every_draw (1 / 2)) [Integer 255, Integer 0, Integer 0] (empty_grid 1 1) = Inr g' \<and>
      0 \<le> x \<and> x < 1 \<and> 0 \<le> y \<and> y < 1 \<and>
      {e. isAlive (cellAt g' e)} =
        {\<lparr>getX = x, getY = y\<rparr>, \<lparr>getX = x + 1, getY = y\<rparr>,
         \<lparr>getX = x, getY = y + 1\<rparr>, \<lparr>getX = x + 1, getY = y + 1\<rparr>} \<and>
      card {e. isAlive (cellAt g' e)} = 4)"
proof -
  have r: "\<forall>n. 0 \<le> every_draw (1 / 2) n \<and> every_draw (1 / 2) n < 1"
    by (rule every_draw_range) simp_all
  have d: "(\<forall>c. \<not> isAlive (cellAt (empty_grid 1 1) c)) \<and>
           1 \<le> getMaxX (empty_grid 1 1) \<and> 1 \<le> getMaxY (empty_grid 1 1)"
    by (simp add: new_Cell_def) (simp add: empty_grid_def)
  have m: "getMaxX (empty_grid 1 1) = 1" "getMaxY (empty_grid 1 1) = 1"
    by (simp_all add: empty_grid_def)
  from tryGenerateBlock_full_or_empty [OF grid_inv_empty_grid r valid_rgb_red, of 1 1] d
  have "\<exists>g' x y. tryGenerateBlock (every_draw (1 / 2)) [Integer 255, Integer 0, Integer 0] (empty_grid 1 1) = Inr g' \<and>
      0 \<le> x \<and> x < 1 \<and> 0 \<le> y \<and> y < 1 \<and>
      {e. isAlive (cellAt g' e)} =
        {\<lparr>getX = x, getY = y\<rparr>, \<lparr>getX = x + 1, getY = y\<rparr>,
         \<lparr>getX = x, getY = y + 1\<rparr>, \<lparr>getX = x + 1, getY = y + 1\<rparr>} \<and>
      card {e. isAlive (cellAt g' e)} = 4"
    unfolding m by blast
  with grid_inv_empty_grid r valid_rgb_red d show ?thesis
    by blast
qed

text \<open>
  C6, as stated, fails on a grid of a single cell: no cell is alive, the colour is
  valid, and \<open>tryGenerateBlock\<close> finds no candidate centre, so that no cell is alive
  afterwards either.
\<close>

theorem tryGenerateBlock_single_cell_counterexample:
  "valid_rgb [Integer 255, Integer 0, Integer 0] \<and> live_cells (empty_grid 0 0) = [] \<and>
   tryGenerateBlock (every_draw 0) [Integer 255, Integer 0, Integer 0] (empty_grid 0 0) =
     Inr \<lparr>getMaxX = 0, getMaxY = 0, grid = [(''0,0'', dead_cell 0 0)]\<rparr> \<and>
   length (live_cells \<lparr>getMaxX = 0, getMaxY = 0, grid = [(''0,0'', dead_cell 0 0)]\<rparr>) \<noteq> 4"
proof -
  have "tryGenerateBlock (every_draw 0) [Integer 255, Integer 0, Integer 0] (empty_grid 0 0) =
     Inr \<lparr>getMaxX = 0, getMaxY = 0, grid = [(''0,0'', dead_cell 0 0)]\<rparr>"
    by code_simp
  then show ?thesis
    using valid_rgb_red by (simp add: live_cells_def empty_grid_def dead_cell_def)
qed

section \<open>The invariant is established and kept; a grid without live cells\<close>

lemma grid_inv_new_Grid: "new_Grid maxX maxY = Inr g \<Longrightarrow> grid_inv g"
  by (auto simp: new_Grid_def grid_inv_def split: if_splits)

lemma grid_inv_setCell:
  assumes "grid_inv g" and "cell_inv cell" and "setCell cell g = Inr (r, g')"
  shows "grid_inv g'"
proof -
  from assms(3) have inb: "in_bounds g (getCoordinates cell)"
    and g': "g' = write_cell (Coordinates_toString (getCoordinates cell)) cell g"
    by (auto simp: setCell_def in_bounds_def write_cell_def split: if_splits)
  show ?thesis
    unfolding g' using assms(1) refl inb assms(2) by (rule grid_inv_write_cell)
qed

lemma grid_inv_getCell: "grid_inv g \<Longrightarrow> getCell c g = Inr (r, g') \<Longrightarrow> grid_inv g'"
  by (auto simp: getCell_eq grid_inv_materialize split: if_splits)

text \<open>Without a live cell the loop has nothing to examine and the grid is left as it is.\<close>

lemma tick_dead_grid:
  assumes "\<forall>cell \<in> snd ` set (grid g). \<not> isAlive cell"
  shows "tick blend g = Inr g"
proof -
  have "filter (\<lambda>(k, cell). isAlive cell) (grid g) = []"
    using assms by (auto simp: filter_empty_conv)
  then have "cellsToCheck (tick_start g) = []"
    by (simp add: tick_start_def)
  then have "tick_loop blend (tick_start g) = Inr (tick_start g)"
    by (simp add: tick_loop.simps [of blend "tick_start g"])
  then show ?thesis
    by (simp add: tick_eq tick_start_def)
qed

section \<open>The colour of a cell born of three parents of one colour\<close>

text \<open>
  C8. The dead cell at (1, 0) of the black blinker has exactly three live neighbours,
  all of them black. The transition revives it with the colour 19, 0, 10 that the
  package's conversions make of three blacks, not with black.
\<close>

theorem tick_black_parents:
  "\<not> isAlive (cellAt black_grid \<lparr>getX = 1, getY = 0\<rparr>) \<and>
   map getColor (liveNeighbors_at black_grid \<lparr>getX = 1, getY = 0\<rparr>) =
     [Some [0, 0, 0], Some [0, 0, 0], Some [0, 0, 0]] \<and>
   tick black_blend black_grid = Inr black_grid_next \<and>
   isAlive (cellAt black_grid_next \<lparr>getX = 1, getY = 0\<rparr>) \<and>
   getColor (cellAt black_grid_next \<lparr>getX = 1, getY = 0\<rparr>) = Some [19, 0, 10] \<and>
   getColor (cellAt black_grid_next \<lparr>getX = 1, getY = 0\<rparr>) \<noteq> Some [0, 0, 0]"
  by code_simp

section \<open>Grid: reading the same cell again\<close>

lemma grid_inv_stored:
  assumes "grid_inv g" and "(k, cell) \<in> set (grid g)"
  shows "deref g (Coordinates_toString (getCoordinates cell)) = Some cell"
proof -
  from assms have "k = Coordinates_toString (getCoordinates cell)" and "distinct (map fst (grid g))"
    by (auto simp: grid_inv_def)
  with assms(2) show ?thesis
    by (simp add: deref_def)
qed

lemma grid_inv_absent:
  assumes "grid_inv g" and "c \<notin> getCoordinates ` snd ` set (grid g)"
  shows "deref g (Coordinates_toString c) = None"
proof (cases "deref g (Coordinates_toString c)")
  case None
  then show ?thesis .
next
  case (Some cell)
  then have "(Coordinates_toString c, cell) \<in> set (grid g)"
    by (simp add: deref_def map_of_SomeD)
  moreover from assms(1) Some have "getCoordinates cell = c"
    by (rule grid_inv_deref_key)
  ultimately have "c \<in> getCoordinates ` snd ` set (grid g)"
    by force
  with assms(2) show ?thesis by simp
qed

lemma deref_materialize_cellAt: "deref (materialize c g) (Coordinates_toString c) = Some (cellAt g c)"
  by (auto simp: deref_materialize cellAt_def split: option.splits)

text \<open>
  C10. On a grid satisfying the invariant and for a position \<open>c\<close> within the bounds,
  \<open>getCell\<close> succeeds. The reference it returns is the key of \<open>c\<close>, and the cell read
  through it lies at \<open>c\<close> and is the cell of that position before the call. A second
  call on the resulting grid returns the same reference and leaves the grid as it is,
  so alive flag and colour are the same. When no cell of the grid lies at \<open>c\<close>, the
  cell is dead and without colour, and it is stored from then on; when one does, it is
  that stored cell and the grid is unchanged. No other entry changes. A call for
  another position returns another reference, to a cell at that position, and after
  any further \<open>getCell\<close> calls the reference of \<open>c\<close> is returned again and still leads
  to the same cell.
\<close>

theorem getCell_same_cell:
  assumes "grid_inv g" and "in_bounds g c"
  shows "\<exists>r g' cell.
           getCell c g = Inr (r, g') \<and> r = Coordinates_toString c \<and>
           deref g' r = Some cell \<and> getCoordinates cell = c \<and> cell = cellAt g c \<and>
           getCell c g' = Inr (r, g') \<and> grid_inv g' \<and>
           (c \<notin> getCoordinates ` snd ` set (grid g) \<longrightarrow>
              deref g r = None \<and> cell = \<lparr>getCoordinates = c, isAlive = False, getColor = None\<rparr>) \<and>
           (c \<in> getCoordinates ` snd ` set (grid g) \<longrightarrow> (r, cell) \<in> set (grid g) \<and> g' = g) \<and>
           (\<forall>k. k \<noteq> r \<longrightarrow> deref g' k = deref g k) \<and>
           (\<forall>d r' g''. d \<noteq> c \<and> getCell d g' = Inr (r', g'') \<longrightarrow>
              r' \<noteq> r \<and> deref g'' r = Some cell \<and>
              (\<exists>cell'. deref g'' r' = Some cell' \<and> getCoordinates cell' = d)) \<and>
           (\<forall>cs rs g''. getCells cs g' = Inr (rs, g'') \<longrightarrow>
              getCell c g'' = Inr (r, g'') \<and> deref g'' r = Some cell)"
proof -
  let ?r = "Coordinates_toString c" and ?g' = "materialize c g" and ?cell = "cellAt g c"
  have first: "getCell c g = Inr (?r, ?g')" and second: "getCell c ?g' = Inr (?r, ?g')"
    using assms(2) by (simp_all add: getCell_eq)
  have stored: "deref ?g' ?r = Some ?cell"
    by (rule deref_materialize_cellAt)
  have at_c: "getCoordinates ?cell = c"
    using assms(1) by simp
  have inv': "grid_inv ?g'"
    using assms by (rule grid_inv_materialize)
  have fresh: "deref g ?r = None \<and> ?cell = \<lparr>getCoordinates = c, isAlive = False, getColor = None\<rparr>"
    if "c \<notin> getCoordinates ` snd ` set (grid g)"
  proof -
    from assms(1) that have "deref g ?r = None"
      by (rule grid_inv_absent)
    then show ?thesis
      by (simp add: cellAt_def new_Cell_def)
  qed
  have kept: "(?r, ?cell) \<in> set (grid g) \<and> ?g' = g"
    if "c \<in> getCoordinates ` snd ` set (grid g)"
  proof -
    from that obtain k cell0 where mem: "(k, cell0) \<in> set (grid g)" and c: "getCoordinates cell0 = c"
      by force
    from assms(1) mem have here: "deref g ?r = Some cell0"
      unfolding c [symmetric] by (rule grid_inv_stored)
    then have "?cell = cell0" and "?g' = g"
      by (simp_all add: deref_cellAt materialize_present)
    moreover from here have "(?r, cell0) \<in> set (grid g)"
      by (simp add: deref_def map_of_SomeD)
    ultimately show ?thesis by simp
  qed
  have others: "deref ?g' k = deref g k" if "k \<noteq> ?r" for k
    using that by (simp add: deref_materialize)
  have other: "r' \<noteq> ?r \<and> deref g'' ?r = Some ?cell \<and>
               (\<exists>cell'. deref g'' r' = Some cell' \<and> getCoordinates cell' = d)"
    if "d \<noteq> c \<and> getCell d ?g' = Inr (r', g'')" for d r' g''
  proof -
    from that have r': "r' = Coordinates_toString d" and g'': "g'' = materialize d ?g'"
      by (simp_all add: getCell_eq split: if_splits)
    from that have "r' \<noteq> ?r"
      by (simp add: r')
    moreover have "deref g'' ?r = Some ?cell"
      using stored by (simp add: g'' deref_materialize)
    moreover have "deref g'' r' = Some (cellAt ?g' d)"
      unfolding r' g'' by (rule deref_materialize_cellAt)
    moreover have "getCoordinates (cellAt ?g' d) = d"
      using inv' by (rule cellAt_coordinates)
    ultimately show ?thesis by blast
  qed
  have later: "getCell c g'' = Inr (?r, g'') \<and> deref g'' ?r = Some ?cell"
    if "getCells cs ?g' = Inr (rs, g'')" for cs rs g''
  proof -
    from that have g'': "g'' = fold materialize cs ?g'"
      by (simp add: getCells_eq split: if_splits)
    have here: "deref g'' ?r = Some ?cell"
      unfolding g'' using stored by (rule deref_fold_materialize_Some)
    then have "materialize c g'' = g''"
      by (rule materialize_present)
    moreover have "in_bounds g'' c"
      using assms(2) by (simp add: g'')
    ultimately show ?thesis
      using here by (simp add: getCell_eq)
  qed
  show ?thesis
  proof (intro exI conjI)
    show "getCell c g = Inr (?r, ?g')" by (rule first)
    show "?r = Coordinates_toString c" by (rule refl)
    show "deref ?g' ?r = Some ?cell" by (rule stored)
    show "getCoordinates ?cell = c" by (rule at_c)
    show "?cell = cellAt g c" by (rule refl)
    show "getCell c ?g' = Inr (?r, ?g')" by (rule second)
    show "grid_inv ?g'" by (rule inv')
    show "c \<notin> getCoordinates ` snd ` set (grid g) \<longrightarrow>
          deref g ?r = None \<and> ?cell = \<lparr>getCoordinates = c, isAlive = False, getColor = None\<rparr>"
      using fresh by blast
    show "c \<in> getCoordinates ` snd ` set (grid g) \<longrightarrow> (?r, ?cell) \<in> set (grid g) \<and> ?g' = g"
      using kept by blast
    show "\<forall>k. k \<noteq> ?r \<longrightarrow> deref ?g' k = deref g k"
      using others by blast
    show "\<forall>d r' g''. d \<noteq> c \<and> getCell d ?g' = Inr (r', g'') \<longrightarrow>
            r' \<noteq> ?r \<and> deref g'' ?r = Some ?cell \<and>
            (\<exists>cell'. deref g'' r' = Some cell' \<and> getCoordinates cell' = d)"
      using other by blast
    show "\<forall>cs rs g''. getCells cs ?g' = Inr (rs, g'') \<longrightarrow>
            getCell c g'' = Inr (?r, g'') \<and> deref g'' ?r = Some ?cell"
      using later by blast
  qed
qed

theorem getCell_same_cell_witness:
  "grid_inv blinker_grid \<and>
   in_bounds blinker_grid \<lparr>getX = 1, getY = 2\<rparr> \<and> in_bounds blinker_grid \<lparr>getX = 1, getY = 1\<rparr> \<and>
   \<lparr>getX = 1, getY = 2\<rparr> \<notin> getCoordinates ` snd ` set (grid blinker_grid) \<and>
   (\<exists>g'. getCell \<lparr>getX = 1, getY = 2\<rparr> blinker_grid = Inr (''1,2'', g') \<and>
      deref g' ''1,2'' = Some (dead_cell 1 2) \<and>
      getCell \<lparr>getX = 1, getY = 2\<rparr> g' = Inr (''1,2'', g') \<and> grid_inv g') \<and>
   \<lparr>getX = 1, getY = 1\<rparr> \<in> getCoordinates ` snd ` set (grid blinker_grid) \<and>
   getCell \<lparr>getX = 1, getY = 1\<rparr> blinker_grid = Inr (''1,1'', blinker_grid) \<and>
   deref blinker_grid ''1,1'' = Some (live_cell 1 1 [0, 255, 0])"
proof -
  let ?c = "\<lparr>getX = 1, getY = 2\<rparr>" and ?d = "\<lparr>getX = 1, getY = 1\<rparr>"
  have b: "in_bounds blinker_grid ?c" "in_bounds blinker_grid ?d"
    by (simp_all add: in_bounds_def blinker_grid_def)
  have k: "Coordinates_toString ?c = ''1,2''" "Coordinates_toString ?d = ''1,1''"
    by (simp_all add: key_eval)
  have untouched: "?c \<notin> getCoordinates ` snd ` set (grid blinker_grid)"
    by (simp add: blinker_grid_def live_cell_def)
  have touched: "?d \<in> getCoordinates ` snd ` set (grid blinker_grid)"
    by (simp add: blinker_grid_def live_cell_def)
  have stored: "deref blinker_grid ''1,1'' = Some (live_cell 1 1 [0, 255, 0])"
    by (simp add: deref_def blinker_grid_def)
  from getCell_same_cell [OF grid_inv_blinker_grid b(1)] obtain r g' cell where
    "getCell ?c blinker_grid = Inr (r, g')" and "r = Coordinates_toString ?c" and
    "deref g' r = Some cell" and "getCoordinates cell = ?c" and "cell = cellAt blinker_grid ?c" and
    "getCell ?c g' = Inr (r, g')" and "grid_inv g'" and
    "?c \<notin> getCoordinates ` snd ` set (grid blinker_grid) \<longrightarrow>
       deref blinker_grid r = None \<and> cell = \<lparr>getCoordinates = ?c, isAlive = False, getColor = None\<rparr>"
    by (elim exE conjE) (rule that, assumption+)
  with untouched have fresh: "\<exists>g'. getCell ?c blinker_grid = Inr (''1,2'', g') \<and>
          deref g' ''1,2'' = Some (dead_cell 1 2) \<and>
          getCell ?c g' = Inr (''1,2'', g') \<and> grid_inv g'"
    by (simp add: k dead_cell_def)
  from getCell_same_cell [OF grid_inv_blinker_grid b(2)] obtain r g' cell where
    "getCell ?d blinker_grid = Inr (r, g')" and "r = Coordinates_toString ?d" and
    "?d \<in> getCoordinates ` snd ` set (grid blinker_grid) \<longrightarrow> (r, cell) \<in> set (grid blinker_grid) \<and> g' = blinker_grid"
    by (elim exE conjE) (rule that, assumption+)
  with touched have "getCell ?d blinker_grid = Inr (''1,1'', blinker_grid)"
    by (simp add: k)
  with fresh grid_inv_blinker_grid b untouched touched stored show ?thesis
    by (intro conjI) assumption+
qed

end
